theory Spec2Isabelle
  imports
    Complex_Main
    "HOL-Library.Product_Lexorder"
    "HOL-Library.List_Lexorder"
begin

section \<open>The n-gram language model (\<^verbatim>\<open>language-model/ngrams.py\<close>)\<close>

subsection \<open>Python built-ins used by the pipeline\<close>

text \<open>
  \<^verbatim>\<open>range(m)\<close> for an integer \<open>m\<close>: the indices \<open>0, ..., m - 1\<close>, none when
  \<open>m \<le> 0\<close>.
\<close>

definition py_range :: "int \<Rightarrow> int list" where
  "py_range m = map int [0..<nat m]"

text \<open>
  \<^verbatim>\<open>xs[lo:hi]\<close> on a list or tuple: a negative bound counts from the end, and every
  bound is then clipped to \<open>0 .. len(xs)\<close>; the slice is empty when the bounds cross.
\<close>

definition py_slice_bound :: "'a list \<Rightarrow> int \<Rightarrow> nat" where
  "py_slice_bound xs b =
     (let n = int (length xs); b' = (if b < 0 then b + n else b)
      in nat (max 0 (min n b')))"

definition py_slice :: "'a list \<Rightarrow> int \<Rightarrow> int \<Rightarrow> 'a list" where
  "py_slice xs lo hi =
     (let l = py_slice_bound xs lo; h = py_slice_bound xs hi
      in take (h - l) (drop l xs))"

subsection \<open>N-gram extractor\<close>

text \<open>
  \<^verbatim>\<open>
  def get_ngrams_from_line(tokens, n):
      ngrams=[]
      if n==1:
          for token in tokens:
              ngrams.append((token,))
      else:
          for i in range(len(tokens)-(n-1)):
              ngrams.append(tuple(tokens[i:i+n]))
      return ngrams
  \<close>
  A tuple of tokens is a list of tokens; \<open>n\<close> is a Python integer.
\<close>

definition get_ngrams_from_line :: "'a list \<Rightarrow> int \<Rightarrow> 'a list list" where
  "get_ngrams_from_line tokens n =
     (if n = 1 then map (\<lambda>token. [token]) tokens
      else map (\<lambda>i. py_slice tokens i (i + n)) (py_range (int (length tokens) - (n - 1))))"

subsection \<open>Strings, errors and floats\<close>

text \<open>
  A Python \<^verbatim>\<open>str\<close> is a sequence of Unicode code points; it is modelled as the list of
  its code points. \<open>ustr\<close> reads an ASCII literal.
\<close>

type_synonym ustring = "nat list"

definition ustr :: "string \<Rightarrow> ustring" where
  "ustr s = map of_char s"

definition NEWLINE :: nat where
  "NEWLINE = 10"

definition SPACE :: nat where
  "SPACE = 32"

definition BACKSLASH :: nat where
  "BACKSLASH = 92"

text \<open>An n-gram is a tuple of tokens; a dictionary keeps its items in insertion order.\<close>

type_synonym ngram = "ustring list"

type_synonym 'v dict = "(ngram \<times> 'v) list"

datatype error = FileNotFoundError | ZeroDivisionError | IndexError | InvariantViolation

definition ebind :: "error + 'a \<Rightarrow> ('a \<Rightarrow> error + 'b) \<Rightarrow> error + 'b" where
  "ebind r f = (case r of Inl e \<Rightarrow> Inl e | Inr x \<Rightarrow> f x)"

text \<open>
  The floats of the pipeline are logarithms and quotients of counts. They are modelled as
  exact reals, with the value \<^verbatim>\<open>-inf\<close> that \<^verbatim>\<open>np.log(0)\<close> returns; rounding is not
  modelled. Python orders them as numbers, \<^verbatim>\<open>-inf\<close> lowest.
\<close>

datatype npfloat = NegInf | Finite real

instantiation npfloat :: linorder
begin

fun less_eq_npfloat :: "npfloat \<Rightarrow> npfloat \<Rightarrow> bool" where
  "less_eq_npfloat NegInf y = True"
| "less_eq_npfloat (Finite x) NegInf = False"
| "less_eq_npfloat (Finite x) (Finite y) = (x \<le> y)"

definition less_npfloat :: "npfloat \<Rightarrow> npfloat \<Rightarrow> bool" where
  "less_npfloat a b = (a \<le> b \<and> \<not> b \<le> a)"

instance
proof
  fix x y z :: npfloat
  show "(x < y) = (x \<le> y \<and> \<not> y \<le> x)"
    by (simp add: less_npfloat_def)
  show "x \<le> x"
    by (cases x) simp_all
  show "x \<le> y \<Longrightarrow> y \<le> z \<Longrightarrow> x \<le> z"
    by (cases x; cases y; cases z) simp_all
  show "x \<le> y \<Longrightarrow> y \<le> x \<Longrightarrow> x = y"
    by (cases x; cases y) simp_all
  show "x \<le> y \<or> y \<le> x"
    by (cases x; cases y) auto
qed

end

text \<open>
  \<^verbatim>\<open>np.log(x)\<close> for \<open>x \<ge> 0\<close>, the only arguments the pipeline passes (a count divided
  by a positive count): \<^verbatim>\<open>-inf\<close> at \<open>0\<close>, the natural logarithm otherwise.
\<close>

definition np_log :: "real \<Rightarrow> npfloat" where
  "np_log x = (if x = 0 then NegInf else Finite (ln x))"

subsection \<open>More Python built-ins\<close>

text \<open>
  \<^verbatim>\<open>s.split(sep)\<close> with a one-character separator: the fields between the separators,
  empty fields included; the empty string gives one empty field.
\<close>

fun py_split_sep :: "'a \<Rightarrow> 'a list \<Rightarrow> 'a list list" where
  "py_split_sep sep [] = [[]]"
| "py_split_sep sep (c # cs) =
     (if c = sep then [] # py_split_sep sep cs
      else (case py_split_sep sep cs of
              [] \<Rightarrow> [[c]]
            | w # ws \<Rightarrow> (c # w) # ws))"

text \<open>
  \<^verbatim>\<open>str.isspace\<close> on one code point, and \<^verbatim>\<open>s.split()\<close> without argument: the maximal
  runs of non-whitespace characters, none of them empty.
\<close>

definition py_isspace :: "nat \<Rightarrow> bool" where
  "py_isspace c =
     ((9 \<le> c \<and> c \<le> 13) \<or> (28 \<le> c \<and> c \<le> 32) \<or> c = 133 \<or> c = 160 \<or> c = 5760 \<or>
      (8192 \<le> c \<and> c \<le> 8202) \<or> c = 8232 \<or> c = 8233 \<or> c = 8239 \<or> c = 8287 \<or>
      c = 12288)"

fun py_split_run :: "ustring \<Rightarrow> ustring \<Rightarrow> ustring list" where
  "py_split_run cur [] = (if cur = [] then [] else [cur])"
| "py_split_run cur (c # cs) =
     (if py_isspace c then (if cur = [] then py_split_run [] cs else cur # py_split_run [] cs)
      else py_split_run (cur @ [c]) cs)"

definition py_split :: "ustring \<Rightarrow> ustring list" where
  "py_split s = py_split_run [] s"

text \<open>
  \<^verbatim>\<open>d[key] = value\<close>: the value of an existing key is replaced in place, a new key is
  added at the end. \<^verbatim>\<open>d[key]\<close> is \<open>map_of d key\<close>.
\<close>

fun dict_set :: "('k \<times> 'v) list \<Rightarrow> 'k \<Rightarrow> 'v \<Rightarrow> ('k \<times> 'v) list" where
  "dict_set [] key value = [(key, value)]"
| "dict_set ((k, v) # d) key value =
     (if k = key then (k, value) # d else (k, v) # dict_set d key value)"

text \<open>
  \<^verbatim>\<open>sorted(d.items(), key=operator.itemgetter(1), reverse=True)\<close>: Python's sort is
  stable, and with \<^verbatim>\<open>reverse=True\<close> it sorts the reversed list and reverses the result, so
  that items with equal values keep their order.
\<close>

definition py_sorted_by_value_reverse :: "('k \<times> 'v::linorder) list \<Rightarrow> ('k \<times> 'v) list" where
  "py_sorted_by_value_reverse items = rev (sort_key snd (rev items))"

text \<open>\<^verbatim>\<open>str(n)\<close> for a length \<open>n\<close>: its decimal digits.\<close>

fun str_nat :: "nat \<Rightarrow> ustring" where
  "str_nat n = (if n < 10 then [48 + n] else str_nat (n div 10) @ [48 + n mod 10])"

declare str_nat.simps [simp del]

subsection \<open>Sentence filter\<close>

text \<open>
  \<^verbatim>\<open>
  def get_ngram_tuples(lines,startTime,lenSentenceCutoff):
      unigrams=[]
      bigrams=[]
      trigrams=[]
      for line in lines.split('\n'):
          line = line.split(' ')
          if len(line) >lenSentenceCutoff:
              unigrams+=get_ngrams_from_line(line,1)
              bigrams+=get_ngrams_from_line(line,2)
              trigrams+=get_ngrams_from_line(line,3)
      ...
      return unigrams, bigrams, trigrams
  \<close>
  The progress lines printed with the elapsed time are left out.
\<close>

fun get_ngram_tuples_loop ::
  "ustring list \<Rightarrow> int \<Rightarrow> ngram list \<times> ngram list \<times> ngram list \<Rightarrow>
   ngram list \<times> ngram list \<times> ngram list" where
  "get_ngram_tuples_loop [] lenSentenceCutoff acc = acc"
| "get_ngram_tuples_loop (line # rest) lenSentenceCutoff (unigrams, bigrams, trigrams) =
     (let line' = py_split_sep SPACE line
      in if int (length line') > lenSentenceCutoff
         then get_ngram_tuples_loop rest lenSentenceCutoff
                (unigrams @ get_ngrams_from_line line' 1,
                 bigrams @ get_ngrams_from_line line' 2,
                 trigrams @ get_ngrams_from_line line' 3)
         else get_ngram_tuples_loop rest lenSentenceCutoff (unigrams, bigrams, trigrams))"

definition get_ngram_tuples :: "ustring \<Rightarrow> int \<Rightarrow> ngram list \<times> ngram list \<times> ngram list" where
  "get_ngram_tuples lines lenSentenceCutoff =
     get_ngram_tuples_loop (py_split_sep NEWLINE lines) lenSentenceCutoff ([], [], [])"

text \<open>
  The sentence filter in the words of the specification: lines are tokenized by whitespace
  splitting, and a line is kept when it has more tokens than the cutoff.
\<close>

definition spec_line_kept :: "ustring \<Rightarrow> int \<Rightarrow> bool" where
  "spec_line_kept line lenSentenceCutoff = (int (length (py_split line)) > lenSentenceCutoff)"

subsection \<open>Count aggregator and probability estimator\<close>

text \<open>
  Modelled from the spec: \<^verbatim>\<open>get_count_dict\<close> of the module \<^verbatim>\<open>corpus_stats\<close>, which is not
  among the sources. Section 4.3: ``Increment a per-key counter for every occurrence;
  counter starts at 0 for unseen keys.''
\<close>

definition count_of :: "('k \<times> nat) list \<Rightarrow> 'k \<Rightarrow> nat" where
  "count_of d key = (case map_of d key of None \<Rightarrow> 0 | Some c \<Rightarrow> c)"

definition count_incr :: "('k \<times> nat) list \<Rightarrow> 'k \<Rightarrow> ('k \<times> nat) list" where
  "count_incr d key = dict_set d key (count_of d key + 1)"

definition get_count_dict :: "'k list \<Rightarrow> ('k \<times> nat) list" where
  "get_count_dict ngrams = fold (\<lambda>key d. count_incr d key) ngrams []"

text \<open>
  The unigram estimator of \<^verbatim>\<open>main\<close>:
  \<^verbatim>\<open>
  N = sum(uniCountDict.values())
  uniProbDict = {}
  for key,value in uniCountDict.items():
      uniProbDict[key] = np.log(value/N)
  \<close>
  The division of two Python integers raises \<^verbatim>\<open>ZeroDivisionError\<close> when \<open>N\<close> is zero.
\<close>

fun uni_prob_loop :: "nat dict \<Rightarrow> nat \<Rightarrow> npfloat dict \<Rightarrow> error + npfloat dict" where
  "uni_prob_loop [] N uniProbDict = Inr uniProbDict"
| "uni_prob_loop ((key, value) # items) N uniProbDict =
     (if N = 0 then Inl ZeroDivisionError
      else uni_prob_loop items N (dict_set uniProbDict key (np_log (real value / real N))))"

definition get_uni_prob_dict :: "nat dict \<Rightarrow> error + npfloat dict" where
  "get_uni_prob_dict uniCountDict =
     (let N = sum_list (map snd uniCountDict) in uni_prob_loop uniCountDict N [])"

text \<open>
  Modelled from the spec: \<^verbatim>\<open>get_MLE_dict\<close> of the module \<^verbatim>\<open>corpus_stats\<close>, which is not
  among the sources; \<^verbatim>\<open>main\<close> calls it as \<^verbatim>\<open>get_MLE_dict(uniCountDict,biCountDict,2)\<close>.
  Section 4.4: ``for an n-gram \<open>(c_1,...,c_{n-1}, w)\<close>,
  \<open>MLE = count(c_1..c_{n-1}, w) / count(c_1..c_{n-1})\<close> using the count table of order
  \<open>n-1\<close> as denominator source''; section 7: a zero-count denominator ``signals an
  Invariant-violation error''. A context that the lower-order table does not hold has
  count zero.
\<close>

fun get_MLE_loop :: "nat dict \<Rightarrow> nat dict \<Rightarrow> int \<Rightarrow> npfloat dict \<Rightarrow> error + npfloat dict" where
  "get_MLE_loop nMinus1CountDict [] n probDict = Inr probDict"
| "get_MLE_loop nMinus1CountDict ((key, value) # items) n probDict =
     (case map_of nMinus1CountDict (py_slice key 0 (n - 1)) of
        None \<Rightarrow> Inl InvariantViolation
      | Some c \<Rightarrow>
          if c = 0 then Inl InvariantViolation
          else get_MLE_loop nMinus1CountDict items n
                 (dict_set probDict key (Finite (real value / real c))))"

definition get_MLE_dict :: "nat dict \<Rightarrow> nat dict \<Rightarrow> int \<Rightarrow> error + npfloat dict" where
  "get_MLE_dict nMinus1CountDict nCountDict n = get_MLE_loop nMinus1CountDict nCountDict n []"

subsection \<open>Backoff weights\<close>

text \<open>
  Modelled from the spec: \<^verbatim>\<open>get_brants_bow_dict\<close> of the module \<^verbatim>\<open>backoff\<close>, which is not
  among the sources. \<^verbatim>\<open>main\<close> passes it one probability table, and \<^verbatim>\<open>print_to_file\<close>
  reads every value of its result as a pair (\<^verbatim>\<open>value[0]\<close> the probability, \<^verbatim>\<open>value[1]\<close>
  the backoff weight). Section 3: a backoff weight is ``a scalar per context''; the
  entries ``come only from observed n-grams''. The weight itself cannot be told from the
  call, so it is the parameter \<open>bow\<close>.
\<close>

definition get_brants_bow_dict ::
  "(npfloat dict \<Rightarrow> ngram \<Rightarrow> npfloat) \<Rightarrow> npfloat dict \<Rightarrow> (npfloat \<times> npfloat) dict" where
  "get_brants_bow_dict bow ngramDict = map (\<lambda>(key, value). (key, (value, bow ngramDict key))) ngramDict"

text \<open>
  Modelled from the spec: the weight of one context, which the absent module \<^verbatim>\<open>backoff\<close>
  computes. Section 4.5: ``weight = (1 - sum of the observed-continuation probabilities
  under this context) normalized by (1 - sum of the corresponding lower-order probabilities
  of those same continuations)'', and ``if the denominator sum would make the lower-order
  mass fully consumed (sum approximately 1) [...] treat degenerate contexts by clamping the
  weight to zero instead of raising''. The spec does not say how near to 1 the sum must be;
  the tolerance is the parameter \<open>eps\<close>. A Python division raises
  \<^verbatim>\<open>ZeroDivisionError\<close> when the divisor is zero.
\<close>

definition py_truediv :: "real \<Rightarrow> real \<Rightarrow> error + real" where
  "py_truediv x y = (if y = 0 then Inl ZeroDivisionError else Inr (x / y))"

definition brants_bow :: "real \<Rightarrow> real list \<Rightarrow> real list \<Rightarrow> error + real" where
  "brants_bow eps probs lowerProbs =
     (let normalizer = 1 - sum_list lowerProbs
      in if \<bar>normalizer\<bar> \<le> eps then Inr 0
         else py_truediv (1 - sum_list probs) normalizer)"

subsection \<open>ARPA serializer\<close>

text \<open>
  The text written to the file: characters, and floats rendered by \<^verbatim>\<open>str\<close> (the decimal
  digits that \<^verbatim>\<open>str\<close> gives a float are not modelled; a rendered float holds neither a
  space nor a line break).
\<close>

datatype piece = Chr nat | Num npfloat

definition lit :: "string \<Rightarrow> piece list" where
  "lit s = map Chr (ustr s)"

definition nl :: piece where
  "nl = Chr NEWLINE"

definition sp :: piece where
  "sp = Chr SPACE"

definition bs :: piece where
  "bs = Chr BACKSLASH"

text \<open>\<^verbatim>\<open>key[i]\<close> on a tuple raises \<^verbatim>\<open>IndexError\<close> beyond its end.\<close>

definition key_at :: "ngram \<Rightarrow> nat \<Rightarrow> error + piece list" where
  "key_at key i = (if i < length key then Inr (map Chr (key ! i)) else Inl IndexError)"

text \<open>
  \<^verbatim>\<open>
  if backoff:
      entry = (str(value[0]) +' '+ key[0] +' '+ str(value[1]))
  else:
      entry = (str(value[0]) +' '+ key[0])
  \<close>
  and the same with \<^verbatim>\<open>key[0] +' '+ key[1]\<close> for a bigram; a trigram's entry is
  \<^verbatim>\<open>str(value) +' '+ key[0] +' '+ key[1] +' '+ key[2]\<close>.
\<close>

definition uni_entry :: "bool \<Rightarrow> ngram \<times> npfloat \<times> npfloat \<Rightarrow> error + piece list" where
  "uni_entry backoff item =
     (case item of (key, value) \<Rightarrow>
        ebind (key_at key 0) (\<lambda>k0.
          if backoff then Inr ([Num (fst value), sp] @ k0 @ [sp, Num (snd value)])
          else Inr ([Num (fst value), sp] @ k0)))"

definition bi_entry :: "bool \<Rightarrow> ngram \<times> npfloat \<times> npfloat \<Rightarrow> error + piece list" where
  "bi_entry backoff item =
     (case item of (key, value) \<Rightarrow>
        ebind (key_at key 0) (\<lambda>k0. ebind (key_at key 1) (\<lambda>k1.
          if backoff then Inr ([Num (fst value), sp] @ k0 @ [sp] @ k1 @ [sp, Num (snd value)])
          else Inr ([Num (fst value), sp] @ k0 @ [sp] @ k1))))"

definition tri_entry :: "ngram \<times> npfloat \<Rightarrow> error + piece list" where
  "tri_entry item =
     (case item of (key, value) \<Rightarrow>
        ebind (key_at key 0) (\<lambda>k0. ebind (key_at key 1) (\<lambda>k1. ebind (key_at key 2) (\<lambda>k2.
          Inr ([Num value, sp] @ k0 @ [sp] @ k1 @ [sp] @ k2)))))"

text \<open>
  The loop \<^verbatim>\<open>for key,value in sortedX: ...; outFile.write(entry+'\n')\<close>: the text it
  writes, or the error of the first entry that raises.
\<close>

fun write_entries :: "('i \<Rightarrow> error + piece list) \<Rightarrow> 'i list \<Rightarrow> error + piece list" where
  "write_entries entry [] = Inr []"
| "write_entries entry (item # items) =
     ebind (entry item) (\<lambda>e. ebind (write_entries entry items) (\<lambda>out. Inr (e @ [nl] @ out)))"

text \<open>
  \<^verbatim>\<open>print_to_file\<close>: the name of the file and the text written to it. In the Python
  literals \<^verbatim>\<open>'\n\data\\\n'\<close> and \<^verbatim>\<open>'\n\end\\'\<close> the sequences \<^verbatim>\<open>\d\<close> and \<^verbatim>\<open>\e\<close> are no
  escapes: they stand for a backslash and the letter.
\<close>

definition print_to_file ::
  "(npfloat \<times> npfloat) dict \<Rightarrow> (npfloat \<times> npfloat) dict \<Rightarrow> npfloat dict \<Rightarrow> bool \<Rightarrow> ustring \<Rightarrow>
   error + (ustring \<times> piece list)" where
  "print_to_file uniBowDict biBowDict triMLEdict backoff smoothing =
     (let backedOff = (if backoff then ustr ''yes'' else ustr ''no'');
          outFile = ustr ''lm_smoothing-'' @ smoothing @ ustr ''_backoff-'' @ backedOff @ ustr ''.txt'';
          preamble = [nl, bs] @ lit ''data'' @ [bs, nl] @
                     lit ''ngram 1='' @ map Chr (str_nat (length uniBowDict)) @ [nl] @
                     lit ''ngram 2='' @ map Chr (str_nat (length biBowDict)) @ [nl] @
                     lit ''ngram 3='' @ map Chr (str_nat (length triMLEdict)) @ [nl];
          sortedUni = py_sorted_by_value_reverse uniBowDict;
          sortedBi = py_sorted_by_value_reverse biBowDict;
          sortedTri = py_sorted_by_value_reverse triMLEdict
      in ebind (write_entries (uni_entry backoff) sortedUni) (\<lambda>uniRows.
         ebind (write_entries (bi_entry backoff) sortedBi) (\<lambda>biRows.
         ebind (write_entries tri_entry sortedTri) (\<lambda>triRows.
           Inr (outFile,
                preamble @
                [nl, bs] @ lit ''1-grams:'' @ [nl] @ uniRows @
                [nl, bs] @ lit ''2-grams:'' @ [nl] @ biRows @
                [nl, bs] @ lit ''3-grams:'' @ [nl] @ triRows @
                [nl, bs] @ lit ''end'' @ [bs])))))"

text \<open>
  The document in terms of its lines, for stating what \<^verbatim>\<open>print_to_file\<close> writes: the
  row of an entry whose key is long enough, the text of a list of lines, and the layout of
  the whole document. Its first line is empty, every section header follows an empty line,
  and the last line \<^verbatim>\<open>\end\\<close> has no line break behind it.
\<close>

definition uni_row :: "bool \<Rightarrow> ngram \<times> npfloat \<times> npfloat \<Rightarrow> piece list" where
  "uni_row backoff item =
     [Num (fst (snd item)), sp] @ map Chr (fst item ! 0) @
     (if backoff then [sp, Num (snd (snd item))] else [])"

definition bi_row :: "bool \<Rightarrow> ngram \<times> npfloat \<times> npfloat \<Rightarrow> piece list" where
  "bi_row backoff item =
     [Num (fst (snd item)), sp] @ map Chr (fst item ! 0) @ [sp] @ map Chr (fst item ! 1) @
     (if backoff then [sp, Num (snd (snd item))] else [])"

definition tri_row :: "ngram \<times> npfloat \<Rightarrow> piece list" where
  "tri_row item =
     [Num (snd item), sp] @ map Chr (fst item ! 0) @ [sp] @ map Chr (fst item ! 1) @ [sp] @
     map Chr (fst item ! 2)"

definition unlines :: "piece list list \<Rightarrow> piece list" where
  "unlines ls = concat (map (\<lambda>l. l @ [nl]) ls)"

definition arpa_document ::
  "piece list list \<Rightarrow> piece list list \<Rightarrow> piece list list \<Rightarrow> piece list" where
  "arpa_document uniRows biRows triRows =
     unlines
       ([[],
         [bs] @ lit ''data'' @ [bs],
         lit ''ngram 1='' @ map Chr (str_nat (length uniRows)),
         lit ''ngram 2='' @ map Chr (str_nat (length biRows)),
         lit ''ngram 3='' @ map Chr (str_nat (length triRows)),
         [],
         [bs] @ lit ''1-grams:''] @ uniRows @
        [[], [bs] @ lit ''2-grams:''] @ biRows @
        [[], [bs] @ lit ''3-grams:''] @ triRows @
        [[]]) @
     [bs] @ lit ''end'' @ [bs]"

text \<open>The first line of a text, and the number of floats in a row.\<close>

definition is_nl :: "piece \<Rightarrow> bool" where
  "is_nl p = (p = nl)"

definition first_line :: "piece list \<Rightarrow> piece list" where
  "first_line doc = takeWhile (\<lambda>p. \<not> is_nl p) doc"

fun is_num :: "piece \<Rightarrow> bool" where
  "is_num (Num x) = True"
| "is_num (Chr c) = False"

definition count_nums :: "piece list \<Rightarrow> nat" where
  "count_nums row = length (filter is_num row)"

text \<open>
  The tie rule of the specification: two rows with the same value stand in the
  lexicographic order of their n-grams.
\<close>

definition spec_tie_rule :: "ngram \<times> 'v \<Rightarrow> ngram \<times> 'v \<Rightarrow> bool" where
  "spec_tie_rule x y = (snd x = snd y \<longrightarrow> fst x \<le> fst y)"

subsection \<open>The pipeline\<close>

text \<open>
  \<^verbatim>\<open>main\<close> from the tables on: lines 166 to 186.
\<close>

definition build_model ::
  "(npfloat dict \<Rightarrow> ngram \<Rightarrow> npfloat) \<Rightarrow> ngram list \<times> ngram list \<times> ngram list \<Rightarrow> bool \<Rightarrow> ustring \<Rightarrow>
   error + (ustring \<times> piece list)" where
  "build_model bow ngrams backoff smoothing =
     (case ngrams of (unigrams, bigrams, trigrams) \<Rightarrow>
        let uniCountDict = get_count_dict unigrams;
            biCountDict = get_count_dict bigrams;
            triCountDict = get_count_dict trigrams
        in ebind (get_uni_prob_dict uniCountDict) (\<lambda>uniProbDict.
           ebind (get_MLE_dict uniCountDict biCountDict 2) (\<lambda>biMLEdict.
           ebind (get_MLE_dict biCountDict triCountDict 3) (\<lambda>triMLEdict.
             let uniBowDict = get_brants_bow_dict bow uniProbDict;
                 biBowDict = get_brants_bow_dict bow biMLEdict
             in print_to_file uniBowDict biBowDict triMLEdict backoff smoothing))))"

text \<open>
  \<^verbatim>\<open>main\<close>: \<open>fs\<close> gives the text of the files that exist; \<^verbatim>\<open>open\<close> raises
  \<^verbatim>\<open>FileNotFoundError\<close> on any other name. The cutoff is fixed here:
  \<^verbatim>\<open>get_ngram_tuples(lines,startTime,lenSentenceCutoff=4)\<close>.
\<close>

definition main ::
  "(ustring \<Rightarrow> ustring option) \<Rightarrow> (npfloat dict \<Rightarrow> ngram \<Rightarrow> npfloat) \<Rightarrow> ustring \<Rightarrow> ustring \<Rightarrow> bool \<Rightarrow>
   error + (ustring \<times> piece list)" where
  "main fs bow fileName smoothing backoff =
     (case fs fileName of
        None \<Rightarrow> Inl FileNotFoundError
      | Some lines \<Rightarrow> build_model bow (get_ngram_tuples lines 4) backoff smoothing)"

section \<open>The syllable splitter (\<^verbatim>\<open>kaldi-style/kaz_syllable_split.py\<close>)\<close>

text \<open>
  The three character classes, as code points:
  \<^verbatim>\<open>consonant = "\<dots>"\<close> (24 letters), \<^verbatim>\<open>vowel = "\<dots>"\<close> (9 letters) and
  \<^verbatim>\<open>glide = "\<dots>"\<close> (4 letters, the last of them also a vowel).
\<close>

definition consonant :: "nat list" where
  "consonant = [1087, 1073, 1076, 1090, 1082, 1075, 1093, 1096, 1097, 1078, 1079, 1089,
                1094, 1095, 1081, 1083, 1084, 1085, 1187, 1092, 1074, 1088, 1098, 1100]"

definition vowel :: "nat list" where
  "vowel = [1080, 1077, 1101, 1257, 1199, 1072, 1086, 1091, 1099]"

definition glide :: "nat list" where
  "glide = [1105, 1103, 1102, 1077]"

text \<open>The boundary marker \<^verbatim>\<open>"@ @"\<close>.\<close>

definition marker :: ustring where
  "marker = ustr ''@ @''"

text \<open>
  The four compiled patterns, for example
  \<^verbatim>\<open>vcv = re.compile("("+vowel+"|"+glide+")("+consonant+")("+vowel+")")\<close>. Every
  alternative of the three classes is one code point, so \<^verbatim>\<open>re.match\<close>, which matches at
  the start of its argument, tests the first characters against the classes.
\<close>

datatype regex = vcv | vccv | vccc | vgv

definition vowel_or_glide :: "nat \<Rightarrow> bool" where
  "vowel_or_glide c = (c \<in> set vowel \<or> c \<in> set glide)"

fun re_match :: "regex \<Rightarrow> ustring \<Rightarrow> bool" where
  "re_match vcv (a # b # c # s) = (vowel_or_glide a \<and> b \<in> set consonant \<and> c \<in> set vowel)"
| "re_match vccv (a # b # c # d # s) =
     (vowel_or_glide a \<and> b \<in> set consonant \<and> c \<in> set consonant \<and> d \<in> set vowel)"
| "re_match vccc (a # b # c # d # s) =
     (vowel_or_glide a \<and> b \<in> set consonant \<and> c \<in> set consonant \<and> d \<in> set consonant)"
| "re_match vgv (a # b # s) = (vowel_or_glide a \<and> b \<in> set glide)"
| "re_match r s = False"

text \<open>
  Where a pass splits a match that starts at \<open>i\<close>: \<^verbatim>\<open>word[:i+1]\<close> for VCV and VGV,
  \<^verbatim>\<open>word[:i+2]\<close> for VCCV, \<^verbatim>\<open>word[:i+3]\<close> for VCCC.
\<close>

fun offset :: "regex \<Rightarrow> nat" where
  "offset vcv = 1"
| "offset vccv = 2"
| "offset vccc = 3"
| "offset vgv = 1"

text \<open>
  \<^verbatim>\<open>word[i:j]\<close> for indices that are never negative, and
  \<^verbatim>\<open>word[:k] + "@ @" + word[k:]\<close>.
\<close>

definition substr :: "ustring \<Rightarrow> nat \<Rightarrow> nat \<Rightarrow> ustring" where
  "substr word i j = take (j - i) (drop i word)"

definition insert_marker :: "ustring \<Rightarrow> nat \<Rightarrow> ustring" where
  "insert_marker word k = take k word @ marker @ drop k word"

text \<open>
  After an insertion the next window of a pass starts inside the marker, which no pattern
  matches; this is why the loops below end.
\<close>

lemma re_match_head: "re_match r s \<Longrightarrow> s \<noteq> [] \<and> vowel_or_glide (hd s)"
  by (induction r s rule: re_match.induct) simp_all

lemma re_match_length: "re_match r s \<Longrightarrow> offset r < length s"
  by (induction r s rule: re_match.induct) simp_all

lemma marker_not_vowel_or_glide: "c \<in> set marker \<Longrightarrow> \<not> vowel_or_glide c"
  by (auto simp: marker_def ustr_def vowel_or_glide_def vowel_def glide_def)

lemma drop_insert_marker:
  assumes "i + offset r \<le> length word"
  shows "drop (i + 3) (insert_marker word (i + offset r))
         = drop (3 - offset r) marker @ drop (i + offset r) word"
proof -
  have c: "offset r \<le> 3" "1 \<le> offset r"
    by (cases r; simp)+
  have m: "length marker = 3"
    by (simp add: marker_def ustr_def)
  from assms c m show ?thesis
    by (simp add: insert_marker_def min_def)
qed

lemma after_insertion_no_match:
  assumes "re_match r (substr word i j)"
  shows "\<not> re_match r (substr (insert_marker word (i + offset r)) (i + 3) (j + 3))"
proof -
  from re_match_length[OF assms] have "offset r < length word - i"
    by (simp add: substr_def)
  then have len: "i + offset r \<le> length word"
    by linarith
  have c: "offset r \<le> 3" "1 \<le> offset r"
    by (cases r; simp)+
  have m: "length marker = 3"
    by (simp add: marker_def ustr_def)
  note d = drop_insert_marker[OF len]
  from c m have ne: "drop (3 - offset r) marker \<noteq> []"
    by simp
  then obtain x xs where x: "drop (3 - offset r) marker = x # xs"
    by (cases "drop (3 - offset r) marker") auto
  then have "x \<in> set marker"
    by (metis in_set_dropD list.set_intros(1))
  then have nv: "\<not> vowel_or_glide x"
    by (rule marker_not_vowel_or_glide)
  show ?thesis
  proof
    assume "re_match r (substr (insert_marker word (i + offset r)) (i + 3) (j + 3))"
    from re_match_head[OF this] nv show False
      by (cases "j - i") (simp_all add: substr_def d x)
  qed
qed

text \<open>
  One pass, for example
  \<^verbatim>\<open>
  i=0
  j=3
  while j<lenWord:
      if re.match(vcv,word[i:j]):
          word = word[:i+1] + "@ @" + word[i+1:]
          i+=3
          j+=3
          lenWord+=3
      else:
          i+=1
          j+=1
  \<close>
  The four loops differ in the pattern, in the split offset and in the first \<open>j\<close>. The
  loop returns the word and \<open>lenWord\<close>, which the next pass goes on with.
\<close>

function split_loop :: "regex \<Rightarrow> ustring \<Rightarrow> nat \<Rightarrow> nat \<Rightarrow> nat \<Rightarrow> ustring \<times> nat" where
  "split_loop r word i j lenWord =
     (if j < lenWord then
        (if re_match r (substr word i j)
         then split_loop r (insert_marker word (i + offset r)) (i + 3) (j + 3) (lenWord + 3)
         else split_loop r word (i + 1) (j + 1) lenWord)
      else (word, lenWord))"
  by pat_completeness auto

termination
proof (relation "measure (\<lambda>(r, word, i, j, lenWord).
         2 * (lenWord - j) + (if re_match r (substr word i j) then 1 else 0))",
       goal_cases)
  case 1
  show ?case by simp
next
  case (2 r word i j lenWord)
  from after_insertion_no_match[OF 2(2)] 2 show ?case
    by simp
next
  case (3 r word i j lenWord)
  then show ?case
    by auto
qed

declare split_loop.simps [simp del]

text \<open>
  The body of the loop over the words: the four passes in their order, and the word that
  \<^verbatim>\<open>print(word)\<close> writes.
\<close>

definition split_word :: "ustring \<Rightarrow> ustring" where
  "split_word word0 =
     (let lenWord = length word0 + 1;
          (word, lenWord) = split_loop vcv word0 0 3 lenWord;
          (word, lenWord) = split_loop vccv word 0 4 lenWord;
          (word, lenWord) = split_loop vccc word 0 4 lenWord;
          (word, lenWord) = split_loop vgv word 0 2 lenWord
      in word)"

text \<open>
  \<^verbatim>\<open>for line in f: for word in line.split(): ...; print(word)\<close>: the lines of the input
  file give the list of the printed words, each printed on a line of its own.
\<close>

definition kaz_syllable_split :: "ustring list \<Rightarrow> ustring list" where
  "kaz_syllable_split f = concat (map (\<lambda>line. map split_word (py_split line)) f)"

text \<open>
  A rule pass in the words of the specification: the word is scanned from left to right,
  and at every position where the pattern matches the marker is inserted at the pattern's
  split point; the scan goes on behind the marker. \<open>width\<close> is the number of characters
  of a pattern.
\<close>

fun insert_marks :: "regex \<Rightarrow> ustring \<Rightarrow> ustring" where
  "insert_marks r [] = []"
| "insert_marks r (c # cs) =
     (if re_match r (c # cs)
      then take (offset r) (c # cs) @ marker @ insert_marks r (drop (offset r - 1) cs)
      else c # insert_marks r cs)"

fun width :: "regex \<Rightarrow> nat" where
  "width vcv = 3"
| "width vccv = 4"
| "width vccc = 4"
| "width vgv = 2"

section \<open>Properties of the n-gram extractor\<close>

lemma py_slice_window:
  assumes "0 \<le> n"
  shows "py_slice xs (int i) (int i + n) = take (nat n) (drop i xs)"
proof (cases "i \<le> length xs")
  case True
  have d: "nat (int i + n) - i = nat n"
    using assms by linarith
  show ?thesis
  proof (cases "int i + n \<le> int (length xs)")
    case le: True
    with True assms d show ?thesis
      by (simp add: py_slice_def py_slice_bound_def Let_def min_def max_def)
  next
    case gt: False
    then have "length xs - i \<le> nat n"
      by linarith
    with True assms gt show ?thesis
      by (simp add: py_slice_def py_slice_bound_def Let_def min_def max_def)
  qed
next
  case False
  with assms show ?thesis
    by (simp add: py_slice_def py_slice_bound_def Let_def min_def max_def)
qed

lemma get_ngrams_from_line_general:
  assumes "2 \<le> n"
  shows "get_ngrams_from_line tokens n =
           map (\<lambda>i. take (nat n) (drop i tokens)) [0..<length tokens + 1 - nat n]"
proof -
  have m: "nat (int (length tokens) - (n - 1)) = length tokens + 1 - nat n"
    using assms by linarith
  have "map (\<lambda>i. py_slice tokens i (i + n)) (py_range (int (length tokens) - (n - 1)))
        = map (\<lambda>i. py_slice tokens (int i) (int i + n)) [0..<length tokens + 1 - nat n]"
    by (simp add: py_range_def m comp_def)
  also have "\<dots> = map (\<lambda>i. take (nat n) (drop i tokens)) [0..<length tokens + 1 - nat n]"
    using assms by (simp add: py_slice_window)
  finally show ?thesis
    using assms by (simp add: get_ngrams_from_line_def)
qed

lemma get_ngrams_from_line_unigrams:
  "get_ngrams_from_line tokens 1 = map (\<lambda>t. [t]) tokens"
  by (simp add: get_ngrams_from_line_def)

text \<open>
  Claim C5. For every token list and every order \<open>n \<ge> 2\<close> the extractor returns exactly
  the windows \<^verbatim>\<open>tokens[i:i+n]\<close> for the start indices \<open>i = 0, ..., len(tokens) - n\<close>, in
  that order, each of exactly \<open>n\<close> tokens; so a sentence of \<open>L \<ge> 2\<close> tokens gives \<open>L - 1\<close>
  bigrams, a sentence shorter than \<open>n\<close> gives none, and repeated windows are all kept (the
  result has one entry per start index).
\<close>

theorem get_ngrams_from_line_windows:
  assumes "2 \<le> n"
  shows "get_ngrams_from_line tokens n =
           map (\<lambda>i. take (nat n) (drop i tokens)) [0..<length tokens + 1 - nat n]
       \<and> length (get_ngrams_from_line tokens n) = length tokens + 1 - nat n
       \<and> (\<forall>g \<in> set (get_ngrams_from_line tokens n). int (length g) = n)
       \<and> (int (length tokens) < n \<longrightarrow> get_ngrams_from_line tokens n = [])
       \<and> (2 \<le> length tokens \<longrightarrow>
            length (get_ngrams_from_line tokens 2) = length tokens - 1)"
proof -
  have a: "get_ngrams_from_line tokens n =
           map (\<lambda>i. take (nat n) (drop i tokens)) [0..<length tokens + 1 - nat n]"
    using assms by (rule get_ngrams_from_line_general)
  have b: "length (get_ngrams_from_line tokens n) = length tokens + 1 - nat n"
    by (simp add: a)
  have c: "\<forall>g \<in> set (get_ngrams_from_line tokens n). int (length g) = n"
    using assms by (auto simp: a)
  have d: "int (length tokens) < n \<longrightarrow> get_ngrams_from_line tokens n = []"
    using assms by (auto simp: a)
  have e: "2 \<le> length tokens \<longrightarrow> length (get_ngrams_from_line tokens 2) = length tokens - 1"
    by (simp add: get_ngrams_from_line_general)
  from a b c d e show ?thesis
    by blast
qed

theorem get_ngrams_from_line_windows_witness:
  "(2::int) \<le> 2 \<and>
   get_ngrams_from_line [''a'', ''b'', ''a'', ''b'', ''c''] 2 =
     [[''a'', ''b''], [''b'', ''a''], [''a'', ''b''], [''b'', ''c'']] \<and>
   length (get_ngrams_from_line [''a'', ''b'', ''a'', ''b'', ''c''] 2) = 4 \<and>
   map length (get_ngrams_from_line [''a'', ''b'', ''a'', ''b'', ''c''] 2) = [2, 2, 2, 2] \<and>
   (2::int) \<le> 3 \<and> int (length [''a'', ''b'']) < 3 \<and>
   get_ngrams_from_line [''a'', ''b''] 3 = []"
proof -
  have h: "(2::int) \<le> 2" by simp
  have h3: "(2::int) \<le> 3" by simp
  have u: "[0..<4] = [0, Suc 0, 2, 3]"
    by (simp add: upt_rec)
  show ?thesis
    using get_ngrams_from_line_windows[OF h, of "[''a'', ''b'', ''a'', ''b'', ''c'']"]
      get_ngrams_from_line_windows[OF h3, of "[''a'', ''b'']"]
    by (simp add: u)
qed

section \<open>Properties of the sentence filter\<close>

lemma py_split_sep_not_Nil: "py_split_sep sep s \<noteq> []"
  by (induction s) (auto split: list.splits)

lemma py_split_sep_single: "sep \<notin> set s \<Longrightarrow> py_split_sep sep s = [s]"
  by (induction s) auto

lemma get_ngram_tuples_loop_concat:
  "get_ngram_tuples_loop ls c (u, b, t) =
     (u @ concat (map (\<lambda>line. get_ngrams_from_line line 1)
            (filter (\<lambda>line. c < int (length line)) (map (py_split_sep SPACE) ls))),
      b @ concat (map (\<lambda>line. get_ngrams_from_line line 2)
            (filter (\<lambda>line. c < int (length line)) (map (py_split_sep SPACE) ls))),
      t @ concat (map (\<lambda>line. get_ngrams_from_line line 3)
            (filter (\<lambda>line. c < int (length line)) (map (py_split_sep SPACE) ls))))"
  by (induction ls arbitrary: u b t) (simp_all add: Let_def)

lemma get_ngram_tuples_concat:
  "get_ngram_tuples lines c =
     (concat (map (\<lambda>line. get_ngrams_from_line line 1)
            (filter (\<lambda>line. c < int (length line))
               (map (py_split_sep SPACE) (py_split_sep NEWLINE lines)))),
      concat (map (\<lambda>line. get_ngrams_from_line line 2)
            (filter (\<lambda>line. c < int (length line))
               (map (py_split_sep SPACE) (py_split_sep NEWLINE lines)))),
      concat (map (\<lambda>line. get_ngrams_from_line line 3)
            (filter (\<lambda>line. c < int (length line))
               (map (py_split_sep SPACE) (py_split_sep NEWLINE lines)))))"
  by (simp add: get_ngram_tuples_def get_ngram_tuples_loop_concat)

lemma single_line_contributes:
  assumes "NEWLINE \<notin> set line"
  shows "(fst (get_ngram_tuples line c) \<noteq> []) = (c < int (length (py_split_sep SPACE line)))"
proof -
  have "get_ngrams_from_line (py_split_sep SPACE line) 1 \<noteq> []"
    by (simp add: get_ngrams_from_line_unigrams py_split_sep_not_Nil)
  then show ?thesis
    using assms by (simp add: get_ngram_tuples_concat py_split_sep_single)
qed

lemma upt_4: "[0..<4] = [0, Suc 0, 2, 3]"
  by (simp add: upt_rec)

lemma upt_3: "[0..<3] = [0, Suc 0, 2]"
  by (simp add: upt_rec)

text \<open>
  The line \<^verbatim>\<open>a  b c d\<close>, with two spaces after the first word, has four tokens under
  whitespace splitting, which is not more than the cutoff 4; the code finds five fields and
  extracts its n-grams.
\<close>

theorem get_ngram_tuples_whitespace_counterexample:
  "get_ngram_tuples (ustr ''a  b c d'') 4 =
    ([[ustr ''a''], [[]], [ustr ''b''], [ustr ''c''], [ustr ''d'']],
     [[ustr ''a'', []], [[], ustr ''b''], [ustr ''b'', ustr ''c''], [ustr ''c'', ustr ''d'']],
     [[ustr ''a'', [], ustr ''b''], [[], ustr ''b'', ustr ''c''], [ustr ''b'', ustr ''c'', ustr ''d'']])
   \<and> py_split (ustr ''a  b c d'') = [ustr ''a'', ustr ''b'', ustr ''c'', ustr ''d'']
   \<and> \<not> spec_line_kept (ustr ''a  b c d'') 4"
proof -
  have l: "py_split_sep NEWLINE (ustr ''a  b c d'') = [ustr ''a  b c d'']"
    by (simp add: ustr_def NEWLINE_def)
  have s: "py_split_sep SPACE (ustr ''a  b c d'') = [ustr ''a'', [], ustr ''b'', ustr ''c'', ustr ''d'']"
    by (simp add: ustr_def SPACE_def)
  have w: "py_split (ustr ''a  b c d'') = [ustr ''a'', ustr ''b'', ustr ''c'', ustr ''d'']"
    by (simp add: py_split_def py_isspace_def ustr_def)
  have g: "get_ngram_tuples (ustr ''a  b c d'') 4 =
    ([[ustr ''a''], [[]], [ustr ''b''], [ustr ''c''], [ustr ''d'']],
     [[ustr ''a'', []], [[], ustr ''b''], [ustr ''b'', ustr ''c''], [ustr ''c'', ustr ''d'']],
     [[ustr ''a'', [], ustr ''b''], [[], ustr ''b'', ustr ''c''], [ustr ''b'', ustr ''c'', ustr ''d'']])"
    by (simp add: get_ngram_tuples_concat l s get_ngrams_from_line_unigrams
        get_ngrams_from_line_general upt_4 upt_3)
  have k: "\<not> spec_line_kept (ustr ''a  b c d'') 4"
    by (simp add: spec_line_kept_def w)
  show ?thesis
    by (intro conjI) (rule g, rule w, rule k)
qed

text \<open>
  Claim C6, as the code has it. The text is split at every line feed and every line at
  every single space (\<^verbatim>\<open>line.split(' ')\<close>): two spaces in a row give an empty token,
  and no other whitespace separates tokens. The n-grams of all three orders come from
  exactly the lines with more fields than the cutoff, in their order; so a line contributes
  if and only if its number of fields is greater than the cutoff. \<^verbatim>\<open>main\<close> calls the
  filter with the cutoff 4.
\<close>

theorem get_ngram_tuples_filter:
  "get_ngram_tuples lines lenSentenceCutoff =
     (concat (map (\<lambda>line. get_ngrams_from_line line 1)
        (filter (\<lambda>line. lenSentenceCutoff < int (length line))
           (map (py_split_sep SPACE) (py_split_sep NEWLINE lines)))),
      concat (map (\<lambda>line. get_ngrams_from_line line 2)
        (filter (\<lambda>line. lenSentenceCutoff < int (length line))
           (map (py_split_sep SPACE) (py_split_sep NEWLINE lines)))),
      concat (map (\<lambda>line. get_ngrams_from_line line 3)
        (filter (\<lambda>line. lenSentenceCutoff < int (length line))
           (map (py_split_sep SPACE) (py_split_sep NEWLINE lines)))))
   \<and> (NEWLINE \<notin> set line \<longrightarrow>
        (fst (get_ngram_tuples line lenSentenceCutoff) \<noteq> []) =
        (lenSentenceCutoff < int (length (py_split_sep SPACE line))))
   \<and> main fs bow fileName smoothing backoff =
        (case fs fileName of
           None \<Rightarrow> Inl FileNotFoundError
         | Some text \<Rightarrow> build_model bow (get_ngram_tuples text 4) backoff smoothing)"
  using single_line_contributes[of line lenSentenceCutoff]
  by (simp add: get_ngram_tuples_concat[symmetric] main_def)

theorem get_ngram_tuples_filter_witness:
  "NEWLINE \<notin> set (ustr ''a b c d e'') \<and>
   4 < int (length (py_split_sep SPACE (ustr ''a b c d e''))) \<and>
   fst (get_ngram_tuples (ustr ''a b c d e'') 4) \<noteq> []"
proof -
  have h: "NEWLINE \<notin> set (ustr ''a b c d e'')"
    by (simp add: ustr_def NEWLINE_def)
  have s: "py_split_sep SPACE (ustr ''a b c d e'') =
             [ustr ''a'', ustr ''b'', ustr ''c'', ustr ''d'', ustr ''e'']"
    by (simp add: ustr_def SPACE_def)
  have len: "4 < int (length (py_split_sep SPACE (ustr ''a b c d e'')))"
    by (simp add: s)
  from get_ngram_tuples_filter[of "ustr ''a b c d e''" 4 "ustr ''a b c d e''"] h len
  have "fst (get_ngram_tuples (ustr ''a b c d e'') 4) \<noteq> []"
    by blast
  with h len show ?thesis
    by blast
qed

section \<open>Properties of the counts and of the probability estimator\<close>

lemma map_of_dict_set: "map_of (dict_set d k v) = (map_of d)(k \<mapsto> v)"
  by (induction d k v rule: dict_set.induct) auto

lemma dict_set_new: "k \<notin> fst ` set d \<Longrightarrow> dict_set d k v = d @ [(k, v)]"
  by (induction d k v rule: dict_set.induct) auto

lemma keys_dict_set:
  "map fst (dict_set d k v) = (if k \<in> fst ` set d then map fst d else map fst d @ [k])"
  by (induction d k v rule: dict_set.induct) auto

lemma distinct_dict_set: "distinct (map fst d) \<Longrightarrow> distinct (map fst (dict_set d k v))"
  by (simp add: keys_dict_set)

lemma count_of_count_incr:
  "count_of (count_incr d key) k = count_of d k + (if k = key then 1 else 0)"
  by (simp add: count_of_def count_incr_def map_of_dict_set)

lemma count_of_fold:
  "count_of (fold (\<lambda>key d. count_incr d key) xs d) k = count_of d k + count_list xs k"
  by (induction xs arbitrary: d) (auto simp: count_of_count_incr)

lemma count_of_Nil: "count_of [] k = 0"
  by (simp add: count_of_def)

lemma count_of_get_count_dict: "count_of (get_count_dict xs) k = count_list xs k"
  by (simp add: get_count_dict_def count_of_fold count_of_Nil)

lemma count_list_pos: "k \<in> set xs \<Longrightarrow> 0 < count_list xs k"
  by (induction xs) auto

lemma distinct_fold_count_incr:
  "distinct (map fst d) \<Longrightarrow> distinct (map fst (fold (\<lambda>key d. count_incr d key) xs d))"
  by (induction xs arbitrary: d) (simp_all add: count_incr_def distinct_dict_set)

lemma distinct_get_count_dict: "distinct (map fst (get_count_dict xs))"
  by (simp add: get_count_dict_def distinct_fold_count_incr)

lemma keys_fold_count_incr:
  "fst ` set (fold (\<lambda>key d. count_incr d key) xs d) = fst ` set d \<union> set xs"
proof (induction xs arbitrary: d)
  case Nil
  then show ?case by simp
next
  case (Cons x xs)
  have "fst ` set (count_incr d x) = insert x (fst ` set d)"
    using keys_dict_set[of d x "count_of d x + 1"]
    by (auto simp: count_incr_def image_iff simp flip: set_map split: if_splits)
  with Cons show ?case by auto
qed

lemma keys_get_count_dict: "fst ` set (get_count_dict xs) = set xs"
  by (simp add: get_count_dict_def keys_fold_count_incr)

lemma entry_get_count_dict:
  assumes "(k, c) \<in> set (get_count_dict xs)"
  shows "k \<in> set xs \<and> c = count_list xs k \<and> 0 < c"
proof -
  from assms have k: "k \<in> set xs"
    using keys_get_count_dict[of xs] by force
  from assms have "map_of (get_count_dict xs) k = Some c"
    by (simp add: distinct_get_count_dict)
  then have "count_of (get_count_dict xs) k = c"
    by (simp add: count_of_def)
  then have c: "c = count_list xs k"
    by (simp add: count_of_get_count_dict)
  with k show ?thesis
    by (simp add: count_list_pos)
qed

lemma windows_Cons:
  assumes "1 \<le> n" "n \<le> Suc (length xs)"
  shows "map (\<lambda>i. take n (drop i (x # xs))) [0..<length (x # xs) + 1 - n] =
           take n (x # xs) # map (\<lambda>i. take n (drop i xs)) [0..<length xs + 1 - n]"
proof -
  from assms have "length (x # xs) + 1 - n = Suc (length xs + 1 - n)"
    by simp
  then have "[0..<length (x # xs) + 1 - n] = 0 # map Suc [0..<length xs + 1 - n]"
    by (simp only: upt_conv_Cons zero_less_Suc map_Suc_upt)
  then show ?thesis
    by (simp add: comp_def)
qed

lemma windows_short:
  assumes "length xs < n"
  shows "map (\<lambda>i. take n (drop i xs)) [0..<length xs + 1 - n] = []"
  using assms by simp

lemma windows_count_le:
  assumes "1 \<le> n"
  shows "count_list (map (\<lambda>i. take (Suc n) (drop i xs)) [0..<length xs + 1 - Suc n]) g
         \<le> count_list (map (\<lambda>i. take n (drop i xs)) [0..<length xs + 1 - n]) (take n g)"
proof (induction xs)
  case Nil
  then show ?case by simp
next
  case (Cons x xs)
  show ?case
  proof (cases "Suc n \<le> Suc (length xs)")
    case True
    with assms have n: "n \<le> Suc (length xs)"
      by simp
    have hi: "map (\<lambda>i. take (Suc n) (drop i (x # xs))) [0..<length (x # xs) + 1 - Suc n] =
        take (Suc n) (x # xs) # map (\<lambda>i. take (Suc n) (drop i xs)) [0..<length xs + 1 - Suc n]"
      using True by (intro windows_Cons) simp_all
    have lo: "map (\<lambda>i. take n (drop i (x # xs))) [0..<length (x # xs) + 1 - n] =
        take n (x # xs) # map (\<lambda>i. take n (drop i xs)) [0..<length xs + 1 - n]"
      using assms n by (intro windows_Cons) simp_all
    have "take (Suc n) (x # xs) = g \<Longrightarrow> take n (x # xs) = take n g"
      by (metis min.absorb1 le_add2 plus_1_eq_Suc take_take)
    with Cons.IH show ?thesis
      unfolding hi lo by auto
  next
    case False
    then have "map (\<lambda>i. take (Suc n) (drop i (x # xs))) [0..<length (x # xs) + 1 - Suc n] = []"
      by simp
    then show ?thesis
      by simp
  qed
qed

lemma unigram_windows: "map (\<lambda>t. [t]) xs = map (\<lambda>i. take 1 (drop i xs)) [0..<length xs + 1 - 1]"
proof (induction xs)
  case Nil
  then show ?case by simp
next
  case (Cons x xs)
  have "map (\<lambda>i. take 1 (drop i (x # xs))) [0..<length (x # xs) + 1 - 1] =
        take 1 (x # xs) # map (\<lambda>i. take 1 (drop i xs)) [0..<length xs + 1 - 1]"
    by (intro windows_Cons) simp_all
  with Cons show ?case
    by simp
qed

lemma line_bigram_count_le:
  "count_list (get_ngrams_from_line line 2) g \<le> count_list (get_ngrams_from_line line 1) (take 1 g)"
  using windows_count_le[of 1 line g]
  by (simp add: get_ngrams_from_line_general get_ngrams_from_line_unigrams unigram_windows
      numeral_2_eq_2)

lemma line_trigram_count_le:
  "count_list (get_ngrams_from_line line 3) g \<le> count_list (get_ngrams_from_line line 2) (take 2 g)"
  using windows_count_le[of 2 line g]
  by (simp add: get_ngrams_from_line_general numeral_3_eq_3 numeral_2_eq_2)

lemma count_list_concat_le:
  assumes "\<And>x. x \<in> set xs \<Longrightarrow> count_list (f x) g \<le> count_list (h x) g'"
  shows "count_list (concat (map f xs)) g \<le> count_list (concat (map h xs)) g'"
  using assms
proof (induction xs)
  case Nil
  then show ?case by simp
next
  case (Cons x xs)
  then have "count_list (f x) g \<le> count_list (h x) g'"
    and "count_list (concat (map f xs)) g \<le> count_list (concat (map h xs)) g'"
    by simp_all
  then show ?case
    by simp
qed

lemma corpus_counts_le:
  assumes "get_ngram_tuples lines cutoff = (unigrams, bigrams, trigrams)"
  shows "count_list bigrams g \<le> count_list unigrams (take 1 g)"
    and "count_list trigrams g \<le> count_list bigrams (take 2 g)"
proof -
  define kept where "kept = filter (\<lambda>line. cutoff < int (length line))
                (map (py_split_sep SPACE) (py_split_sep NEWLINE lines))"
  from assms have u: "unigrams = concat (map (\<lambda>line. get_ngrams_from_line line 1) kept)"
    and b: "bigrams = concat (map (\<lambda>line. get_ngrams_from_line line 2) kept)"
    and t: "trigrams = concat (map (\<lambda>line. get_ngrams_from_line line 3) kept)"
    by (simp_all add: get_ngram_tuples_concat kept_def)
  show "count_list bigrams g \<le> count_list unigrams (take 1 g)"
    unfolding u b by (rule count_list_concat_le) (rule line_bigram_count_le)
  show "count_list trigrams g \<le> count_list bigrams (take 2 g)"
    unfolding b t by (rule count_list_concat_le) (rule line_trigram_count_le)
qed

lemma corpus_ngram_lengths:
  assumes "get_ngram_tuples lines cutoff = (unigrams, bigrams, trigrams)"
  shows "g \<in> set bigrams \<Longrightarrow> length g = 2"
    and "g \<in> set trigrams \<Longrightarrow> length g = 3"
  using assms
  by (auto simp: get_ngram_tuples_concat get_ngrams_from_line_general)

lemma get_MLE_loop_total:
  assumes "distinct (map fst items)"
    and "fst ` set items \<inter> fst ` set probDict = {}"
    and "\<forall>item \<in> set items. count_of lower (py_slice (fst item) 0 (n - 1)) \<noteq> 0"
  shows "get_MLE_loop lower items n probDict =
     Inr (probDict @ map (\<lambda>item. (fst item,
            Finite (real (snd item) / real (count_of lower (py_slice (fst item) 0 (n - 1))))))
          items)"
  using assms
proof (induction items arbitrary: probDict)
  case Nil
  then show ?case by simp
next
  case (Cons item items)
  obtain key "value" where item: "item = (key, value)"
    by (cases item)
  from Cons.prems(3) item have "count_of lower (py_slice key 0 (n - 1)) \<noteq> 0"
    by simp
  then obtain c where c: "map_of lower (py_slice key 0 (n - 1)) = Some c" "c \<noteq> 0"
    "count_of lower (py_slice key 0 (n - 1)) = c"
    by (auto simp: count_of_def split: option.splits)
  from Cons.prems(2) item have "key \<notin> fst ` set probDict"
    by auto
  then have ds: "dict_set probDict key (Finite (real value / real c)) =
      probDict @ [(key, Finite (real value / real c))]"
    by (rule dict_set_new)
  have "get_MLE_loop lower items n (probDict @ [(key, Finite (real value / real c))]) =
     Inr ((probDict @ [(key, Finite (real value / real c))]) @ map (\<lambda>item. (fst item,
            Finite (real (snd item) / real (count_of lower (py_slice (fst item) 0 (n - 1))))))
          items)"
    using Cons.prems item by (intro Cons.IH) auto
  then show ?case
    by (simp add: item c ds)
qed

lemma get_MLE_dict_total:
  assumes "distinct (map fst nCountDict)"
    and "\<forall>item \<in> set nCountDict. count_of lower (py_slice (fst item) 0 (n - 1)) \<noteq> 0"
  shows "get_MLE_dict lower nCountDict n =
     Inr (map (\<lambda>item. (fst item,
            Finite (real (snd item) / real (count_of lower (py_slice (fst item) 0 (n - 1))))))
          nCountDict)"
  using get_MLE_loop_total[of nCountDict "[]" lower n] assms
  by (simp add: get_MLE_dict_def)

lemma py_slice_prefix: "py_slice xs 0 (int k) = take k xs"
  using py_slice_window[of "int k" xs 0] by simp

lemma map_of_MLE_entries:
  "map_of (map (\<lambda>item. (fst item, f item)) d) k =
     (case map_of d k of None \<Rightarrow> None | Some v \<Rightarrow> Some (f (k, v)))"
  by (induction d) auto

lemma count_of_nonzero: "count_of d k \<noteq> 0 \<Longrightarrow> map_of d k = Some (count_of d k)"
  by (auto simp: count_of_def split: option.splits)

text \<open>
  Claim C1. On the n-grams of any corpus and cutoff, the estimator returns a table for the
  bigrams and one for the trigrams (no zero or missing denominator occurs). For every
  bigram \<open>(a, b)\<close> with a nonzero count, the count of \<open>(a)\<close> in the unigram table is
  nonzero and the estimate stored for \<open>(a, b)\<close> is \<open>count(a, b) / count(a)\<close>, an exact
  quotient; likewise for every trigram \<open>(a, b, c)\<close> over the bigram table.
\<close>

theorem get_MLE_dict_pipeline:
  assumes "get_ngram_tuples lines cutoff = (unigrams, bigrams, trigrams)"
  shows "\<exists>biMLEdict triMLEdict.
    get_MLE_dict (get_count_dict unigrams) (get_count_dict bigrams) 2 = Inr biMLEdict \<and>
    get_MLE_dict (get_count_dict bigrams) (get_count_dict trigrams) 3 = Inr triMLEdict \<and>
    (\<forall>a b. count_of (get_count_dict bigrams) [a, b] \<noteq> 0 \<longrightarrow>
       count_of (get_count_dict unigrams) [a] \<noteq> 0 \<and>
       map_of biMLEdict [a, b] =
         Some (Finite (real (count_of (get_count_dict bigrams) [a, b]) /
                       real (count_of (get_count_dict unigrams) [a])))) \<and>
    (\<forall>a b c. count_of (get_count_dict trigrams) [a, b, c] \<noteq> 0 \<longrightarrow>
       count_of (get_count_dict bigrams) [a, b] \<noteq> 0 \<and>
       map_of triMLEdict [a, b, c] =
         Some (Finite (real (count_of (get_count_dict trigrams) [a, b, c]) /
                       real (count_of (get_count_dict bigrams) [a, b]))))"
proof -
  let ?uni = "get_count_dict unigrams" and ?bi = "get_count_dict bigrams"
    and ?tri = "get_count_dict trigrams"
  let ?biMLE = "map (\<lambda>item. (fst item,
            Finite (real (snd item) / real (count_of ?uni (py_slice (fst item) 0 (2 - 1)))))) ?bi"
  let ?triMLE = "map (\<lambda>item. (fst item,
            Finite (real (snd item) / real (count_of ?bi (py_slice (fst item) 0 (3 - 1)))))) ?tri"
  have s1': "py_slice g 0 1 = take 1 g" for g :: ngram
    using py_slice_prefix[of g 1] by simp
  have s2': "py_slice g 0 2 = take 2 g" for g :: ngram
    using py_slice_prefix[of g 2] by simp
  have s1: "py_slice g 0 (2 - 1) = take 1 g" for g :: ngram
    by (simp add: s1')
  have s2: "py_slice g 0 (3 - 1) = take 2 g" for g :: ngram
    by (simp add: s2')
  have le1: "count_of ?bi g \<le> count_of ?uni (take 1 g)" for g
    using corpus_counts_le(1)[OF assms] by (simp add: count_of_get_count_dict)
  have le2: "count_of ?tri g \<le> count_of ?bi (take 2 g)" for g
    using corpus_counts_le(2)[OF assms] by (simp add: count_of_get_count_dict)
  have hb: "\<forall>item \<in> set ?bi. count_of ?uni (py_slice (fst item) 0 (2 - 1)) \<noteq> 0"
  proof
    fix item assume "item \<in> set ?bi"
    then have "0 < count_list bigrams (fst item)"
      using entry_get_count_dict[of "fst item" "snd item" bigrams] by simp
    then have "0 < count_of ?bi (fst item)"
      by (simp add: count_of_get_count_dict)
    with le1[of "fst item"] show "count_of ?uni (py_slice (fst item) 0 (2 - 1)) \<noteq> 0"
      by (simp add: s1')
  qed
  have ht: "\<forall>item \<in> set ?tri. count_of ?bi (py_slice (fst item) 0 (3 - 1)) \<noteq> 0"
  proof
    fix item assume "item \<in> set ?tri"
    then have "0 < count_list trigrams (fst item)"
      using entry_get_count_dict[of "fst item" "snd item" trigrams] by simp
    then have "0 < count_of ?tri (fst item)"
      by (simp add: count_of_get_count_dict)
    with le2[of "fst item"] show "count_of ?bi (py_slice (fst item) 0 (3 - 1)) \<noteq> 0"
      by (simp add: s2')
  qed
  have b: "get_MLE_dict ?uni ?bi 2 = Inr ?biMLE"
    using distinct_get_count_dict hb by (rule get_MLE_dict_total)
  have t: "get_MLE_dict ?bi ?tri 3 = Inr ?triMLE"
    using distinct_get_count_dict ht by (rule get_MLE_dict_total)
  have pb: "count_of ?uni [a] \<noteq> 0 \<and>
       map_of ?biMLE [a, b] = Some (Finite (real (count_of ?bi [a, b]) / real (count_of ?uni [a])))"
    if "count_of ?bi [a, b] \<noteq> 0" for a b
  proof -
    from that le1[of "[a, b]"] have "count_of ?uni [a] \<noteq> 0"
      by simp
    moreover from that have "map_of ?bi [a, b] = Some (count_of ?bi [a, b])"
      by (rule count_of_nonzero)
    then have "map_of ?biMLE [a, b] =
        Some (Finite (real (count_of ?bi [a, b]) / real (count_of ?uni (take 1 [a, b]))))"
      by (simp only: map_of_MLE_entries s1 option.case fst_conv snd_conv)
    ultimately show ?thesis
      by simp
  qed
  have pt: "count_of ?bi [a, b] \<noteq> 0 \<and>
       map_of ?triMLE [a, b, c] =
         Some (Finite (real (count_of ?tri [a, b, c]) / real (count_of ?bi [a, b])))"
    if "count_of ?tri [a, b, c] \<noteq> 0" for a b c
  proof -
    from that le2[of "[a, b, c]"] have "count_of ?bi [a, b] \<noteq> 0"
      by (simp add: numeral_2_eq_2)
    moreover from that have "map_of ?tri [a, b, c] = Some (count_of ?tri [a, b, c])"
      by (rule count_of_nonzero)
    then have "map_of ?triMLE [a, b, c] =
        Some (Finite (real (count_of ?tri [a, b, c]) / real (count_of ?bi (take 2 [a, b, c]))))"
      by (simp only: map_of_MLE_entries s2 option.case fst_conv snd_conv)
    ultimately show ?thesis
      by (simp add: numeral_2_eq_2)
  qed
  from b t pb pt show ?thesis
    by blast
qed

theorem get_MLE_dict_pipeline_witness:
  "get_ngram_tuples (ustr ''a b a b c'') 0 =
     ([[ustr ''a''], [ustr ''b''], [ustr ''a''], [ustr ''b''], [ustr ''c'']],
      [[ustr ''a'', ustr ''b''], [ustr ''b'', ustr ''a''], [ustr ''a'', ustr ''b''],
       [ustr ''b'', ustr ''c'']],
      [[ustr ''a'', ustr ''b'', ustr ''a''], [ustr ''b'', ustr ''a'', ustr ''b''],
       [ustr ''a'', ustr ''b'', ustr ''c'']]) \<and>
   count_of (get_count_dict
      [[ustr ''a'', ustr ''b''], [ustr ''b'', ustr ''a''], [ustr ''a'', ustr ''b''],
       [ustr ''b'', ustr ''c'']]) [ustr ''a'', ustr ''b''] = 2 \<and>
   count_of (get_count_dict
      [[ustr ''a''], [ustr ''b''], [ustr ''a''], [ustr ''b''], [ustr ''c'']]) [ustr ''a''] = 2 \<and>
   (\<exists>biMLEdict.
      get_MLE_dict
        (get_count_dict [[ustr ''a''], [ustr ''b''], [ustr ''a''], [ustr ''b''], [ustr ''c'']])
        (get_count_dict [[ustr ''a'', ustr ''b''], [ustr ''b'', ustr ''a''],
           [ustr ''a'', ustr ''b''], [ustr ''b'', ustr ''c'']]) 2 = Inr biMLEdict \<and>
      map_of biMLEdict [ustr ''a'', ustr ''b''] = Some (Finite 1))"
proof -
  let ?U = "[[ustr ''a''], [ustr ''b''], [ustr ''a''], [ustr ''b''], [ustr ''c'']]"
  let ?B = "[[ustr ''a'', ustr ''b''], [ustr ''b'', ustr ''a''], [ustr ''a'', ustr ''b''],
       [ustr ''b'', ustr ''c'']]"
  let ?T = "[[ustr ''a'', ustr ''b'', ustr ''a''], [ustr ''b'', ustr ''a'', ustr ''b''],
       [ustr ''a'', ustr ''b'', ustr ''c'']]"
  have l: "py_split_sep NEWLINE (ustr ''a b a b c'') = [ustr ''a b a b c'']"
    by (simp add: ustr_def NEWLINE_def)
  have s: "py_split_sep SPACE (ustr ''a b a b c'') =
      [ustr ''a'', ustr ''b'', ustr ''a'', ustr ''b'', ustr ''c'']"
    by (simp add: ustr_def SPACE_def)
  have g: "get_ngram_tuples (ustr ''a b a b c'') 0 = (?U, ?B, ?T)"
    by (simp add: get_ngram_tuples_concat l s get_ngrams_from_line_unigrams
        get_ngrams_from_line_general upt_4 upt_3)
  have cb: "count_of (get_count_dict ?B) [ustr ''a'', ustr ''b''] = 2"
    by (simp add: count_of_get_count_dict ustr_def)
  have cu: "count_of (get_count_dict ?U) [ustr ''a''] = 2"
    by (simp add: count_of_get_count_dict ustr_def)
  from get_MLE_dict_pipeline[OF g] obtain biMLEdict where
    m: "get_MLE_dict (get_count_dict ?U) (get_count_dict ?B) 2 = Inr biMLEdict"
    and e: "\<forall>a b. count_of (get_count_dict ?B) [a, b] \<noteq> 0 \<longrightarrow>
       count_of (get_count_dict ?U) [a] \<noteq> 0 \<and>
       map_of biMLEdict [a, b] =
         Some (Finite (real (count_of (get_count_dict ?B) [a, b]) /
                       real (count_of (get_count_dict ?U) [a])))"
    by blast
  from e cb cu have "map_of biMLEdict [ustr ''a'', ustr ''b''] = Some (Finite 1)"
    by simp
  with m have "\<exists>biMLEdict. get_MLE_dict (get_count_dict ?U) (get_count_dict ?B) 2 = Inr biMLEdict \<and>
      map_of biMLEdict [ustr ''a'', ustr ''b''] = Some (Finite 1)"
    by blast
  with g cb cu show ?thesis
    by blast
qed

lemma uni_prob_loop_total:
  assumes "N \<noteq> 0"
    and "distinct (map fst items)"
    and "fst ` set items \<inter> fst ` set uniProbDict = {}"
  shows "uni_prob_loop items N uniProbDict =
     Inr (uniProbDict @ map (\<lambda>item. (fst item, np_log (real (snd item) / real N))) items)"
  using assms
proof (induction items arbitrary: uniProbDict)
  case Nil
  then show ?case by simp
next
  case (Cons item items)
  obtain key "value" where item: "item = (key, value)"
    by (cases item)
  from Cons.prems(3) item have "key \<notin> fst ` set uniProbDict"
    by auto
  then have ds: "dict_set uniProbDict key (np_log (real value / real N)) =
      uniProbDict @ [(key, np_log (real value / real N))]"
    by (rule dict_set_new)
  have "uni_prob_loop items N (uniProbDict @ [(key, np_log (real value / real N))]) =
     Inr ((uniProbDict @ [(key, np_log (real value / real N))]) @
          map (\<lambda>item. (fst item, np_log (real (snd item) / real N))) items)"
    using Cons.prems item by (intro Cons.IH) auto
  then show ?case
    using Cons.prems(1) by (simp add: item ds)
qed

lemma sum_list_quotients:
  "(\<Sum>item\<leftarrow>d. real (snd item) / real N) = real (sum_list (map snd d)) / real N"
  by (induction d) (simp_all add: add_divide_distrib)

text \<open>
  Claim C2. For a unigram count table with a positive total \<open>N\<close>, the estimator returns
  the table that gives every word \<open>w\<close> the value \<^verbatim>\<open>np.log(count(w)/N)\<close>, which for a
  positive count is the natural logarithm \<open>ln (count(w) / N)\<close>; and the quotients
  \<open>count(w) / N\<close> of the whole table add up to 1. (Reals, without rounding.)
\<close>

theorem get_uni_prob_dict_log:
  assumes "distinct (map fst uniCountDict)"
    and "0 < sum_list (map snd uniCountDict)"
  shows "get_uni_prob_dict uniCountDict =
       Inr (map (\<lambda>item. (fst item,
              np_log (real (snd item) / real (sum_list (map snd uniCountDict))))) uniCountDict)
   \<and> (\<forall>w c. map_of uniCountDict w = Some c \<and> 0 < c \<longrightarrow>
         map_of (map (\<lambda>item. (fst item,
              np_log (real (snd item) / real (sum_list (map snd uniCountDict))))) uniCountDict) w
         = Some (Finite (ln (real c / real (sum_list (map snd uniCountDict))))))
   \<and> (\<Sum>item\<leftarrow>uniCountDict. real (snd item) / real (sum_list (map snd uniCountDict))) = 1"
proof -
  let ?N = "sum_list (map snd uniCountDict)"
  from assms(2) have n: "?N \<noteq> 0"
    by (rule gr_implies_not0)
  have a: "get_uni_prob_dict uniCountDict =
       Inr (map (\<lambda>item. (fst item, np_log (real (snd item) / real ?N))) uniCountDict)"
    using uni_prob_loop_total[OF n assms(1), of "[]"]
    by (simp add: get_uni_prob_dict_def)
  have b: "map_of (map (\<lambda>item. (fst item, np_log (real (snd item) / real ?N))) uniCountDict) w
         = Some (Finite (ln (real c / real ?N)))"
    if "map_of uniCountDict w = Some c \<and> 0 < c" for w c
  proof -
    from that n have "real c / real ?N \<noteq> 0"
      by simp
    then have "np_log (real c / real ?N) = Finite (ln (real c / real ?N))"
      by (simp add: np_log_def)
    with that show ?thesis
      by (simp only: map_of_MLE_entries option.case snd_conv)
  qed
  have c: "(\<Sum>item\<leftarrow>uniCountDict. real (snd item) / real ?N) = 1"
    using n by (simp add: sum_list_quotients)
  from a b c show ?thesis
    by blast
qed

theorem get_uni_prob_dict_log_witness:
  "get_uni_prob_dict [([ustr ''a''], 2), ([ustr ''b''], 2), ([ustr ''c''], 1)] =
     Inr [([ustr ''a''], Finite (ln (2 / 5))), ([ustr ''b''], Finite (ln (2 / 5))),
          ([ustr ''c''], Finite (ln (1 / 5)))]
   \<and> (2 / 5 + (2 / 5 + 1 / 5) :: real) = 1"
proof -
  have d: "distinct (map fst [([ustr ''a''], 2 :: nat), ([ustr ''b''], 2), ([ustr ''c''], 1)])"
    by (simp add: ustr_def)
  have p: "0 < sum_list (map snd [([ustr ''a''], 2 :: nat), ([ustr ''b''], 2), ([ustr ''c''], 1)])"
    by simp
  from get_uni_prob_dict_log[OF d p] show ?thesis
    by (simp add: np_log_def)
qed

section \<open>Properties of the backoff weight\<close>

text \<open>
  Claim C3. For a tolerance \<open>eps \<ge> 0\<close>: a context whose normalizer \<open>1 - sum\<close> of the
  lower-order probabilities is within \<open>eps\<close> of zero gets the weight 0 exactly, and for no
  context does the computation of the weight raise a division by zero.
\<close>

theorem brants_bow_clamped:
  assumes "0 \<le> eps"
  shows "(\<bar>1 - sum_list lowerProbs\<bar> \<le> eps \<longrightarrow> brants_bow eps probs lowerProbs = Inr 0)
       \<and> brants_bow eps probs' lowerProbs' \<noteq> Inl ZeroDivisionError
       \<and> (\<exists>w. brants_bow eps probs' lowerProbs' = Inr w)"
proof -
  have "\<not> \<bar>1 - sum_list lowerProbs'\<bar> \<le> eps \<Longrightarrow> 1 - sum_list lowerProbs' \<noteq> 0"
    using assms by auto
  then show ?thesis
    by (auto simp: brants_bow_def py_truediv_def Let_def)
qed

theorem brants_bow_clamped_witness:
  "(0 :: real) \<le> 1 / 1000 \<and> \<bar>1 - sum_list [1 :: real]\<bar> \<le> 1 / 1000 \<and>
   brants_bow (1 / 1000) [1] [1] = Inr 0 \<and>
   brants_bow (1 / 1000) [1 / 2] [1 / 4, 1 / 4] = Inr 1"
proof -
  have h: "(0 :: real) \<le> 1 / 1000"
    by simp
  have d: "\<bar>1 - sum_list [1 :: real]\<bar> \<le> 1 / 1000"
    by simp
  from brants_bow_clamped[OF h, of "[1]" "[1]"] d have a: "brants_bow (1 / 1000) [1] [1] = Inr 0"
    by blast
  have b: "brants_bow (1 / 1000) [1 / 2] [1 / 4, 1 / 4] = Inr 1"
    by (simp add: brants_bow_def py_truediv_def Let_def)
  from h d a b show ?thesis
    by blast
qed

section \<open>Properties of the serializer\<close>

lemma uni_entry_row: "1 \<le> length (fst item) \<Longrightarrow> uni_entry backoff item = Inr (uni_row backoff item)"
  by (cases item) (auto simp: uni_entry_def uni_row_def key_at_def ebind_def)

lemma bi_entry_row: "2 \<le> length (fst item) \<Longrightarrow> bi_entry backoff item = Inr (bi_row backoff item)"
  by (cases item) (auto simp: bi_entry_def bi_row_def key_at_def ebind_def)

lemma tri_entry_row: "3 \<le> length (fst item) \<Longrightarrow> tri_entry item = Inr (tri_row item)"
  by (cases item) (auto simp: tri_entry_def tri_row_def key_at_def ebind_def)

lemma write_entries_rows:
  "\<forall>item \<in> set items. entry item = Inr (row item) \<Longrightarrow>
   write_entries entry items = Inr (unlines (map row items))"
  by (induction items) (simp_all add: ebind_def unlines_def)

lemma set_py_sorted [simp]: "set (py_sorted_by_value_reverse d) = set d"
  by (simp add: py_sorted_by_value_reverse_def)

lemma length_py_sorted [simp]: "length (py_sorted_by_value_reverse d) = length d"
  by (simp add: py_sorted_by_value_reverse_def)

lemma unlines_append: "unlines (xs @ ys) = unlines xs @ unlines ys"
  by (simp add: unlines_def)

lemma unlines_Nil: "unlines [] = []"
  by (simp add: unlines_def)

lemma unlines_Cons: "unlines (l # ls) = l @ nl # unlines ls"
  by (simp add: unlines_def)

lemma print_to_file_layout:
  assumes "\<forall>item \<in> set uniBowDict. 1 \<le> length (fst item)"
    and "\<forall>item \<in> set biBowDict. 2 \<le> length (fst item)"
    and "\<forall>item \<in> set triMLEdict. 3 \<le> length (fst item)"
  shows "print_to_file uniBowDict biBowDict triMLEdict backoff smoothing =
     Inr (ustr ''lm_smoothing-'' @ smoothing @ ustr ''_backoff-'' @
            (if backoff then ustr ''yes'' else ustr ''no'') @ ustr ''.txt'',
          arpa_document
            (map (uni_row backoff) (py_sorted_by_value_reverse uniBowDict))
            (map (bi_row backoff) (py_sorted_by_value_reverse biBowDict))
            (map tri_row (py_sorted_by_value_reverse triMLEdict)))"
proof -
  have u: "write_entries (uni_entry backoff) (py_sorted_by_value_reverse uniBowDict) =
      Inr (unlines (map (uni_row backoff) (py_sorted_by_value_reverse uniBowDict)))"
    using assms(1) by (intro write_entries_rows) (simp add: uni_entry_row)
  have b: "write_entries (bi_entry backoff) (py_sorted_by_value_reverse biBowDict) =
      Inr (unlines (map (bi_row backoff) (py_sorted_by_value_reverse biBowDict)))"
    using assms(2) by (intro write_entries_rows) (simp add: bi_entry_row)
  have t: "write_entries tri_entry (py_sorted_by_value_reverse triMLEdict) =
      Inr (unlines (map tri_row (py_sorted_by_value_reverse triMLEdict)))"
    using assms(3) by (intro write_entries_rows) (simp add: tri_entry_row)
  have doc: "arpa_document rows1 rows2 rows3 =
      [nl, bs] @ lit ''data'' @ [bs, nl] @
      lit ''ngram 1='' @ map Chr (str_nat (length rows1)) @ [nl] @
      lit ''ngram 2='' @ map Chr (str_nat (length rows2)) @ [nl] @
      lit ''ngram 3='' @ map Chr (str_nat (length rows3)) @ [nl] @
      [nl, bs] @ lit ''1-grams:'' @ [nl] @ unlines rows1 @
      [nl, bs] @ lit ''2-grams:'' @ [nl] @ unlines rows2 @
      [nl, bs] @ lit ''3-grams:'' @ [nl] @ unlines rows3 @
      [nl, bs] @ lit ''end'' @ [bs]" for rows1 rows2 rows3
    by (simp only: arpa_document_def unlines_append unlines_Cons unlines_Nil append_Cons
        append_Nil append_assoc append_Nil2)
  show ?thesis
    unfolding print_to_file_def Let_def u b t doc
    by (simp only: ebind_def sum.case length_py_sorted length_map append_assoc append_Cons
        append_Nil)
qed

lemma py_sorted_descending:
  "sorted_wrt (\<lambda>x y. snd y \<le> snd x) (py_sorted_by_value_reverse d)"
proof -
  have "sorted (map snd (sort_key snd (rev d)))"
    by (rule sorted_sort_key)
  then have "sorted_wrt (\<lambda>x y. snd x \<le> snd y) (sort_key snd (rev d))"
    by (simp only: sorted_map)
  then show ?thesis
    by (simp add: py_sorted_by_value_reverse_def sorted_wrt_rev)
qed

lemma py_sorted_stable:
  "filter (\<lambda>x. snd x = v) (py_sorted_by_value_reverse d) = filter (\<lambda>x. snd x = v) d"
proof -
  have "filter (\<lambda>x. snd x = v) (py_sorted_by_value_reverse d)
        = rev (filter (\<lambda>x. snd x = v) (sort_key snd (rev d)))"
    by (simp add: py_sorted_by_value_reverse_def rev_filter)
  also have "\<dots> = rev (filter (\<lambda>x. snd x = v) (rev d))"
    by (simp only: sort_key_stable)
  also have "\<dots> = filter (\<lambda>x. snd x = v) d"
    by (simp add: rev_filter[symmetric])
  finally show ?thesis .
qed

lemma py_sorted_descending_prob:
  fixes d :: "('k \<times> npfloat \<times> npfloat) list"
  shows "sorted_wrt (\<lambda>x y. fst (snd y) \<le> fst (snd x)) (py_sorted_by_value_reverse d)"
proof (rule sorted_wrt_mono_rel[OF _ py_sorted_descending])
  fix x y :: "'k \<times> npfloat \<times> npfloat"
  assume "snd y \<le> snd x"
  then show "fst (snd y) \<le> fst (snd x)"
    by (cases "snd x"; cases "snd y") (auto simp: less_eq_prod_def)
qed

lemma filter_is_num_Chr: "filter is_num (map Chr xs) = []"
  by (induction xs) simp_all

lemma count_nums_tri_row: "count_nums (tri_row item) = 1"
  by (simp add: count_nums_def tri_row_def sp_def filter_is_num_Chr)

lemma first_line_arpa_document: "first_line (arpa_document rows1 rows2 rows3) = []"
  by (simp add: first_line_def arpa_document_def unlines_def is_nl_def)

text \<open>
  Claim C8, as the code has it. For tables whose keys hold at least one, two and three
  tokens, the serializer writes the document \<open>arpa_document\<close>: an empty first line, the
  line \<^verbatim>\<open>\data\\<close>, the three \<^verbatim>\<open>ngram k=\<close> lines, whose numbers are the numbers of rows of
  the sections, and then for each order an empty line, the section header and the rows; an
  empty line and \<^verbatim>\<open>\end\\<close> close it. Every table entry gives one row, and a trigram row
  holds one float, the probability, whatever the backoff flag is.
\<close>

theorem print_to_file_document:
  assumes "\<forall>item \<in> set uniBowDict. 1 \<le> length (fst item)"
    and "\<forall>item \<in> set biBowDict. 2 \<le> length (fst item)"
    and "\<forall>item \<in> set triMLEdict. 3 \<le> length (fst item)"
  shows "print_to_file uniBowDict biBowDict triMLEdict backoff smoothing =
     Inr (ustr ''lm_smoothing-'' @ smoothing @ ustr ''_backoff-'' @
            (if backoff then ustr ''yes'' else ustr ''no'') @ ustr ''.txt'',
          arpa_document
            (map (uni_row backoff) (py_sorted_by_value_reverse uniBowDict))
            (map (bi_row backoff) (py_sorted_by_value_reverse biBowDict))
            (map tri_row (py_sorted_by_value_reverse triMLEdict)))
   \<and> length (map (uni_row backoff) (py_sorted_by_value_reverse uniBowDict)) = length uniBowDict
   \<and> length (map (bi_row backoff) (py_sorted_by_value_reverse biBowDict)) = length biBowDict
   \<and> length (map tri_row (py_sorted_by_value_reverse triMLEdict)) = length triMLEdict
   \<and> first_line (arpa_document
            (map (uni_row backoff) (py_sorted_by_value_reverse uniBowDict))
            (map (bi_row backoff) (py_sorted_by_value_reverse biBowDict))
            (map tri_row (py_sorted_by_value_reverse triMLEdict))) = []
   \<and> map count_nums (map tri_row (py_sorted_by_value_reverse triMLEdict)) =
       replicate (length triMLEdict) 1"
proof -
  have "map count_nums (map tri_row xs) = replicate (length xs) 1" for xs :: "npfloat dict"
    by (induction xs) (simp_all add: count_nums_tri_row)
  from this[of "py_sorted_by_value_reverse triMLEdict"] show ?thesis
    using print_to_file_layout[OF assms]
    by (simp add: first_line_arpa_document)
qed

lemma str_nat_0: "str_nat 0 = [48]"
  by (subst str_nat.simps) simp

theorem print_to_file_document_witness:
  "print_to_file [([ustr ''a''], (Finite 0, Finite 0))] []
      [([ustr ''a'', ustr ''b'', ustr ''c''], Finite 0)] True (ustr ''none'') =
     Inr (ustr ''lm_smoothing-none_backoff-yes.txt'',
          arpa_document [[Num (Finite 0), sp] @ lit ''a'' @ [sp, Num (Finite 0)]] []
            [[Num (Finite 0), sp] @ lit ''a b c''])
   \<and> count_nums ([Num (Finite 0), sp] @ lit ''a b c'') = 1"
proof -
  have a: "\<forall>item \<in> set [([ustr ''a''], (Finite 0, Finite 0))]. 1 \<le> length (fst item)"
    by simp
  have b: "\<forall>item \<in> set ([] :: (npfloat \<times> npfloat) dict). 2 \<le> length (fst item)"
    by simp
  have c: "\<forall>item \<in> set [([ustr ''a'', ustr ''b'', ustr ''c''], Finite 0)]. 3 \<le> length (fst item)"
    by simp
  show ?thesis
    using print_to_file_document[OF a b c, of True "ustr ''none''"]
    by (simp add: py_sorted_by_value_reverse_def uni_row_def tri_row_def lit_def ustr_def
        sp_def SPACE_def count_nums_def)
qed

text \<open>
  With empty tables the document starts with a line break: its first line is empty, and
  \<^verbatim>\<open>\data\\<close> is its second line.
\<close>

theorem print_to_file_first_line_counterexample:
  "print_to_file [] [] [] False (ustr ''none'') =
     Inr (ustr ''lm_smoothing-none_backoff-no.txt'',
          [nl, bs] @ lit ''data'' @ [bs, nl] @
          lit ''ngram 1=0'' @ [nl] @ lit ''ngram 2=0'' @ [nl] @ lit ''ngram 3=0'' @ [nl] @
          [nl, bs] @ lit ''1-grams:'' @ [nl] @
          [nl, bs] @ lit ''2-grams:'' @ [nl] @
          [nl, bs] @ lit ''3-grams:'' @ [nl] @
          [nl, bs] @ lit ''end'' @ [bs])
   \<and> first_line ([nl, bs] @ lit ''data'' @ [bs, nl] @
          lit ''ngram 1=0'' @ [nl] @ lit ''ngram 2=0'' @ [nl] @ lit ''ngram 3=0'' @ [nl] @
          [nl, bs] @ lit ''1-grams:'' @ [nl] @
          [nl, bs] @ lit ''2-grams:'' @ [nl] @
          [nl, bs] @ lit ''3-grams:'' @ [nl] @
          [nl, bs] @ lit ''end'' @ [bs]) = []
   \<and> [bs] @ lit ''data'' @ [bs] \<noteq> []"
  by (simp add: print_to_file_def py_sorted_by_value_reverse_def ebind_def str_nat_0
      lit_def ustr_def first_line_def is_nl_def)

text \<open>
  Claim C7, as the code has it. In each section the rows stand in the order of
  \<^verbatim>\<open>sorted(..., key=operator.itemgetter(1), reverse=True)\<close>: by descending value, which for
  the 1-gram and 2-gram sections is the pair of probability and backoff weight, so by
  descending probability and then by descending backoff weight. Rows with equal values keep
  the order in which the table holds them; the n-grams are not compared.
\<close>

theorem print_to_file_row_order:
  assumes "\<forall>item \<in> set uniBowDict. 1 \<le> length (fst item)"
    and "\<forall>item \<in> set biBowDict. 2 \<le> length (fst item)"
    and "\<forall>item \<in> set triMLEdict. 3 \<le> length (fst item)"
  shows "print_to_file uniBowDict biBowDict triMLEdict backoff smoothing =
     Inr (ustr ''lm_smoothing-'' @ smoothing @ ustr ''_backoff-'' @
            (if backoff then ustr ''yes'' else ustr ''no'') @ ustr ''.txt'',
          arpa_document
            (map (uni_row backoff) (py_sorted_by_value_reverse uniBowDict))
            (map (bi_row backoff) (py_sorted_by_value_reverse biBowDict))
            (map tri_row (py_sorted_by_value_reverse triMLEdict)))
   \<and> sorted_wrt (\<lambda>x y. snd y \<le> snd x) (py_sorted_by_value_reverse uniBowDict)
   \<and> sorted_wrt (\<lambda>x y. snd y \<le> snd x) (py_sorted_by_value_reverse biBowDict)
   \<and> sorted_wrt (\<lambda>x y. snd y \<le> snd x) (py_sorted_by_value_reverse triMLEdict)
   \<and> sorted_wrt (\<lambda>x y. fst (snd y) \<le> fst (snd x)) (py_sorted_by_value_reverse uniBowDict)
   \<and> sorted_wrt (\<lambda>x y. fst (snd y) \<le> fst (snd x)) (py_sorted_by_value_reverse biBowDict)
   \<and> (\<forall>v. filter (\<lambda>x. snd x = v) (py_sorted_by_value_reverse uniBowDict) =
            filter (\<lambda>x. snd x = v) uniBowDict)
   \<and> (\<forall>v. filter (\<lambda>x. snd x = v) (py_sorted_by_value_reverse biBowDict) =
            filter (\<lambda>x. snd x = v) biBowDict)
   \<and> (\<forall>v. filter (\<lambda>x. snd x = v) (py_sorted_by_value_reverse triMLEdict) =
            filter (\<lambda>x. snd x = v) triMLEdict)"
  using print_to_file_layout[OF assms, of backoff smoothing]
  by (simp only: py_sorted_descending py_sorted_descending_prob py_sorted_stable simp_thms)

lemma py_sorted_ties:
  "py_sorted_by_value_reverse
     [([ustr ''b'', ustr ''b'', ustr ''b''], Finite 0),
      ([ustr ''a'', ustr ''a'', ustr ''a''], Finite 0),
      ([ustr ''c'', ustr ''c'', ustr ''c''], Finite 1)] =
     [([ustr ''c'', ustr ''c'', ustr ''c''], Finite 1),
      ([ustr ''b'', ustr ''b'', ustr ''b''], Finite 0),
      ([ustr ''a'', ustr ''a'', ustr ''a''], Finite 0)]"
  by (simp add: py_sorted_by_value_reverse_def)

theorem print_to_file_row_order_witness:
  "print_to_file [] []
     [([ustr ''b'', ustr ''b'', ustr ''b''], Finite 0),
      ([ustr ''a'', ustr ''a'', ustr ''a''], Finite 0),
      ([ustr ''c'', ustr ''c'', ustr ''c''], Finite 1)] False (ustr ''none'') =
     Inr (ustr ''lm_smoothing-none_backoff-no.txt'',
          arpa_document [] []
            [[Num (Finite 1), sp] @ lit ''c c c'',
             [Num (Finite 0), sp] @ lit ''b b b'',
             [Num (Finite 0), sp] @ lit ''a a a''])"
proof -
  have a: "\<forall>item \<in> set ([] :: (npfloat \<times> npfloat) dict). 1 \<le> length (fst item)"
    by simp
  have b: "\<forall>item \<in> set ([] :: (npfloat \<times> npfloat) dict). 2 \<le> length (fst item)"
    by simp
  have c: "\<forall>item \<in> set [([ustr ''b'', ustr ''b'', ustr ''b''], Finite 0),
      ([ustr ''a'', ustr ''a'', ustr ''a''], Finite 0),
      ([ustr ''c'', ustr ''c'', ustr ''c''], Finite 1)]. 3 \<le> length (fst item)"
    by simp
  from print_to_file_row_order[OF a b c, of False "ustr ''none''"]
  have "print_to_file [] []
     [([ustr ''b'', ustr ''b'', ustr ''b''], Finite 0),
      ([ustr ''a'', ustr ''a'', ustr ''a''], Finite 0),
      ([ustr ''c'', ustr ''c'', ustr ''c''], Finite 1)] False (ustr ''none'') =
     Inr (ustr ''lm_smoothing-'' @ ustr ''none'' @ ustr ''_backoff-'' @
            (if False then ustr ''yes'' else ustr ''no'') @ ustr ''.txt'',
          arpa_document
            (map (uni_row False) (py_sorted_by_value_reverse []))
            (map (bi_row False) (py_sorted_by_value_reverse []))
            (map tri_row (py_sorted_by_value_reverse
               [([ustr ''b'', ustr ''b'', ustr ''b''], Finite 0),
                ([ustr ''a'', ustr ''a'', ustr ''a''], Finite 0),
                ([ustr ''c'', ustr ''c'', ustr ''c''], Finite 1)])))"
    by (rule conjunct1)
  then show ?thesis
    by (simp add: py_sorted_ties)
       (simp add: py_sorted_by_value_reverse_def tri_row_def lit_def ustr_def sp_def SPACE_def)
qed

text \<open>
  Two trigrams of equal probability, the table holding \<^verbatim>\<open>b b b\<close> before \<^verbatim>\<open>a a a\<close>: the
  rows are written in this order, against the lexicographic order of the n-grams.
\<close>

theorem print_to_file_ties_counterexample:
  "print_to_file [] []
     [([ustr ''b'', ustr ''b'', ustr ''b''], Finite 0),
      ([ustr ''a'', ustr ''a'', ustr ''a''], Finite 0)] False (ustr ''none'') =
     Inr (ustr ''lm_smoothing-none_backoff-no.txt'',
          arpa_document [] []
            [[Num (Finite 0), sp] @ lit ''b b b'',
             [Num (Finite 0), sp] @ lit ''a a a''])
   \<and> [ustr ''a'', ustr ''a'', ustr ''a''] < [ustr ''b'', ustr ''b'', ustr ''b'']
   \<and> \<not> sorted_wrt spec_tie_rule (py_sorted_by_value_reverse
         [([ustr ''b'', ustr ''b'', ustr ''b''], Finite 0),
          ([ustr ''a'', ustr ''a'', ustr ''a''], Finite 0 :: npfloat)])"
proof -
  have s: "py_sorted_by_value_reverse
         [([ustr ''b'', ustr ''b'', ustr ''b''], Finite 0),
          ([ustr ''a'', ustr ''a'', ustr ''a''], Finite 0 :: npfloat)] =
         [([ustr ''b'', ustr ''b'', ustr ''b''], Finite 0),
          ([ustr ''a'', ustr ''a'', ustr ''a''], Finite 0)]"
    by (simp add: py_sorted_by_value_reverse_def)
  have lt: "[ustr ''a'', ustr ''a'', ustr ''a''] < [ustr ''b'', ustr ''b'', ustr ''b'']"
    by (simp add: ustr_def)
  have p: "print_to_file [] []
     [([ustr ''b'', ustr ''b'', ustr ''b''], Finite 0),
      ([ustr ''a'', ustr ''a'', ustr ''a''], Finite 0)] False (ustr ''none'') =
     Inr (ustr ''lm_smoothing-none_backoff-no.txt'',
          arpa_document [] []
            [[Num (Finite 0), sp] @ lit ''b b b'',
             [Num (Finite 0), sp] @ lit ''a a a''])"
    by (subst print_to_file_layout)
       (simp_all add: s tri_row_def lit_def ustr_def sp_def SPACE_def
          py_sorted_by_value_reverse_def)
  have n: "\<not> sorted_wrt spec_tie_rule (py_sorted_by_value_reverse
         [([ustr ''b'', ustr ''b'', ustr ''b''], Finite 0),
          ([ustr ''a'', ustr ''a'', ustr ''a''], Finite 0 :: npfloat)])"
    unfolding s by (simp add: spec_tie_rule_def ustr_def)
  show ?thesis
    by (intro conjI) (rule p, rule lt, rule n)
qed

section \<open>Properties of the pipeline\<close>

text \<open>
  What \<^verbatim>\<open>main\<close> itself does with a missing or an empty corpus file. When the file is
  missing, \<^verbatim>\<open>open\<close> raises before anything else runs. When the file is empty, or no line
  of it has more than four fields, the sentence filter returns three empty lists and
  \<^verbatim>\<open>main\<close>, which has no check of its own, goes on with them to \<^verbatim>\<open>get_count_dict\<close>;
  what happens from there on is decided by the modules \<^verbatim>\<open>corpus_stats\<close> and \<^verbatim>\<open>backoff\<close>,
  which are not among the sources.
\<close>

lemma get_ngram_tuples_none:
  assumes "\<forall>line \<in> set (py_split_sep NEWLINE lines). int (length (py_split_sep SPACE line)) \<le> cutoff"
  shows "get_ngram_tuples lines cutoff = ([], [], [])"
proof -
  from assms have "filter (\<lambda>line. cutoff < int (length line))
        (map (py_split_sep SPACE) (py_split_sep NEWLINE lines)) = []"
    by (auto simp: filter_empty_conv)
  then show ?thesis
    by (simp add: get_ngram_tuples_concat)
qed

lemma main_missing_file:
  "fs fileName = None \<Longrightarrow> main fs bow fileName smoothing backoff = Inl FileNotFoundError"
  by (simp add: main_def)

lemma main_empty_file:
  "fs fileName = Some [] \<Longrightarrow>
   main fs bow fileName smoothing backoff = build_model bow ([], [], []) backoff smoothing"
proof -
  have "get_ngram_tuples [] 4 = ([], [], [])"
    by (rule get_ngram_tuples_none) simp
  then show "fs fileName = Some [] \<Longrightarrow>
   main fs bow fileName smoothing backoff = build_model bow ([], [], []) backoff smoothing"
    by (simp add: main_def)
qed

section \<open>Properties of the syllable splitter\<close>

lemma re_match_width: "re_match r s \<Longrightarrow> width r \<le> length s"
  by (induction r s rule: re_match.induct) simp_all

lemma re_match_conv:
  "re_match r s =
     (width r \<le> length s \<and> vowel_or_glide (s ! 0) \<and>
      (case r of
         vcv \<Rightarrow> s ! 1 \<in> set consonant \<and> s ! 2 \<in> set vowel
       | vccv \<Rightarrow> s ! 1 \<in> set consonant \<and> s ! 2 \<in> set consonant \<and> s ! 3 \<in> set vowel
       | vccc \<Rightarrow> s ! 1 \<in> set consonant \<and> s ! 2 \<in> set consonant \<and> s ! 3 \<in> set consonant
       | vgv \<Rightarrow> s ! 1 \<in> set glide))"
  by (induction r s rule: re_match.induct) (simp_all split: regex.splits)

lemma re_match_take: "width r \<le> n \<Longrightarrow> re_match r (take n s) = re_match r s"
  by (cases r) (auto simp: re_match_conv)

lemma insert_marks_short: "length s < width r \<Longrightarrow> insert_marks r s = s"
proof (induction s)
  case Nil
  then show ?case by simp
next
  case (Cons c cs)
  then have "\<not> re_match r (c # cs)"
    using re_match_width[of r "c # cs"] by auto
  with Cons show ?case by simp
qed

lemma insert_marks_skip:
  "\<forall>c \<in> set xs. \<not> vowel_or_glide c \<Longrightarrow> insert_marks r (xs @ rest) = xs @ insert_marks r rest"
proof (induction xs)
  case Nil
  then show ?case by simp
next
  case (Cons x xs)
  then have "\<not> re_match r (x # xs @ rest)"
    using re_match_head[of r "x # xs @ rest"] by auto
  with Cons show ?case by simp
qed

lemma insert_marks_match:
  assumes "re_match r s"
  shows "insert_marks r s = take (offset r) s @ marker @ insert_marks r (drop (offset r) s)"
proof (cases s)
  case Nil
  with assms show ?thesis by (cases r) simp_all
next
  case (Cons c cs)
  have "1 \<le> offset r" by (cases r) simp_all
  then have "drop (offset r) (c # cs) = drop (offset r - 1) cs"
    by (cases "offset r") simp_all
  with assms Cons show ?thesis by simp
qed

lemma insert_marks_no_match:
  assumes "\<not> re_match r s" "s \<noteq> []"
  shows "insert_marks r s = hd s # insert_marks r (tl s)"
  using assms by (cases s) simp_all

lemma split_loop_refines:
  assumes "i \<le> length word" "j = i + width r" "lenWord = length word + 1"
  shows "split_loop r word i j lenWord =
           (take i word @ insert_marks r (drop i word),
            length (take i word @ insert_marks r (drop i word)) + 1)"
  using assms
proof (induction r word i j lenWord rule: split_loop.induct)
  case (1 r word i j lenWord)
  show ?case
  proof (cases "j < lenWord")
    case False
    with 1(3-5) have "length (drop i word) < width r"
      by simp
    then have "insert_marks r (drop i word) = drop i word"
      by (rule insert_marks_short)
    with False 1(3-5) show ?thesis
      by (subst split_loop.simps) simp
  next
    case inside: True
    have sub: "re_match r (substr word i j) = re_match r (drop i word)"
      using 1(4) by (simp add: substr_def re_match_take)
    show ?thesis
    proof (cases "re_match r (substr word i j)")
      case True
      let ?w = "insert_marker word (i + offset r)"
      from re_match_length[OF True] have "offset r < length word - i"
        by (simp add: substr_def)
      then have len: "i + offset r \<le> length word"
        by linarith
      have c: "offset r \<le> 3" "1 \<le> offset r"
        by (cases r; simp)+
      have m: "length marker = 3"
        by (simp add: marker_def ustr_def)
      have lw: "length ?w = length word + 3"
        using len m by (simp add: insert_marker_def)
      have ih: "split_loop r ?w (i + 3) (j + 3) (lenWord + 3) =
           (take (i + 3) ?w @ insert_marks r (drop (i + 3) ?w),
            length (take (i + 3) ?w @ insert_marks r (drop (i + 3) ?w)) + 1)"
        using 1(1)[OF inside True] 1(3-5) lw by simp
      have tk: "take (i + 3) ?w = take i word @ take (offset r) (drop i word) @ take (3 - offset r) marker"
      proof -
        have "take (i + 3) ?w = take (i + offset r) word @ take (3 - offset r) marker"
          using len c m by (simp add: insert_marker_def min_def)
        moreover have "take (i + offset r) word = take i word @ take (offset r) (drop i word)"
          by (simp add: take_add)
        ultimately show ?thesis by simp
      qed
      have "\<forall>c \<in> set (drop (3 - offset r) marker). \<not> vowel_or_glide c"
        using marker_not_vowel_or_glide by (meson in_set_dropD)
      then have dr: "insert_marks r (drop (i + 3) ?w)
            = drop (3 - offset r) marker @ insert_marks r (drop (i + offset r) word)"
        by (simp add: drop_insert_marker[OF len] insert_marks_skip)
      have "take (i + 3) ?w @ insert_marks r (drop (i + 3) ?w)
            = take i word @ take (offset r) (drop i word) @ marker
              @ insert_marks r (drop (offset r) (drop i word))"
        by (simp add: tk dr add.commute)
      also have "\<dots> = take i word @ insert_marks r (drop i word)"
        using True sub by (simp add: insert_marks_match)
      finally have eq: "take (i + 3) ?w @ insert_marks r (drop (i + 3) ?w)
            = take i word @ insert_marks r (drop i word)" .
      show ?thesis
        using inside True ih
        by (simp only: split_loop.simps[of r word i j lenWord] eq if_True)
    next
      case False
      from inside 1(3-5) have lt: "i < length word"
        by (cases r) simp_all
      have ih: "split_loop r word (i + 1) (j + 1) lenWord =
           (take (i + 1) word @ insert_marks r (drop (i + 1) word),
            length (take (i + 1) word @ insert_marks r (drop (i + 1) word)) + 1)"
        using 1(2)[OF inside False] 1(3-5) lt by simp
      from lt have ne: "drop i word \<noteq> []"
        by simp
      have "insert_marks r (drop i word) = hd (drop i word) # insert_marks r (tl (drop i word))"
        using False sub ne by (simp add: insert_marks_no_match)
      moreover have "hd (drop i word) = word ! i"
        using lt by (simp add: hd_drop_conv_nth)
      moreover have "tl (drop i word) = drop (i + 1) word"
        by (simp add: drop_Suc tl_drop)
      moreover have "take (i + 1) word = take i word @ [word ! i]"
        using lt by (simp add: take_Suc_conv_app_nth)
      ultimately have eq: "take (i + 1) word @ insert_marks r (drop (i + 1) word)
            = take i word @ insert_marks r (drop i word)"
        by simp
      show ?thesis
        using inside False ih
        by (simp only: split_loop.simps[of r word i j lenWord] eq if_True if_False)
    qed
  qed
qed

lemma split_loop_start:
  "split_loop r word 0 (width r) (Suc (length word)) =
     (insert_marks r word, Suc (length (insert_marks r word)))"
  using split_loop_refines[of 0 word "width r" r "Suc (length word)"] by simp

lemma split_word_passes:
  "split_word word =
     insert_marks vgv (insert_marks vccc (insert_marks vccv (insert_marks vcv word)))"
  using split_loop_start[of vcv, simplified] split_loop_start[of vccv, simplified]
    split_loop_start[of vccc, simplified] split_loop_start[of vgv, simplified]
  by (simp add: split_word_def)

lemma set_insert_marks: "set (insert_marks r s) \<subseteq> set s \<union> set marker"
proof (induction r s rule: insert_marks.induct)
  case (1 r)
  then show ?case by simp
next
  case (2 r c cs)
  show ?case
  proof (cases "re_match r (c # cs)")
    case True
    have "set (take (offset r) (c # cs)) \<subseteq> set (c # cs)"
      by (rule set_take_subset)
    moreover have "set (drop (offset r - 1) cs) \<subseteq> set cs"
      by (rule set_drop_subset)
    ultimately show ?thesis
      using 2(1)[OF True] True by auto
  next
    case False
    with 2(2)[OF False] show ?thesis by auto
  qed
qed

lemma py_split_run_no_space:
  "\<forall>c \<in> set cur. \<not> py_isspace c \<Longrightarrow> w \<in> set (py_split_run cur s) \<Longrightarrow>
   \<forall>c \<in> set w. \<not> py_isspace c"
proof (induction s arbitrary: cur)
  case Nil
  then show ?case
    by (cases "cur = []") simp_all
next
  case (Cons x xs)
  show ?case
  proof (cases "py_isspace x")
    case True
    with Cons.prems(2) have "w = cur \<or> w \<in> set (py_split_run [] xs)"
      by (cases "cur = []") simp_all
    then show ?thesis
      using Cons.IH[of "[]"] Cons.prems(1) by auto
  next
    case False
    with Cons.prems(2) have "w \<in> set (py_split_run (cur @ [x]) xs)"
      by simp
    moreover from False Cons.prems(1) have "\<forall>c \<in> set (cur @ [x]). \<not> py_isspace c"
      by simp
    ultimately show ?thesis
      using Cons.IH[of "cur @ [x]"] by blast
  qed
qed

lemma py_split_no_space: "w \<in> set (py_split s) \<Longrightarrow> c \<in> set w \<Longrightarrow> \<not> py_isspace c"
  using py_split_run_no_space[of "[]" w s] by (auto simp: py_split_def)

lemma newline_isspace: "py_isspace NEWLINE"
  by (simp add: py_isspace_def NEWLINE_def)

lemma newline_not_in_marker: "NEWLINE \<notin> set marker"
  by (simp add: marker_def ustr_def NEWLINE_def)

lemma split_word_no_newline:
  assumes "NEWLINE \<notin> set w"
  shows "NEWLINE \<notin> set (split_word w)"
proof -
  have step: "\<And>r s. NEWLINE \<notin> set s \<Longrightarrow> NEWLINE \<notin> set (insert_marks r s)"
    using set_insert_marks newline_not_in_marker by blast
  show ?thesis
    unfolding split_word_passes using assms by (intro step)
qed

text \<open>
  Claim C9. The splitter tokenizes every input line with \<^verbatim>\<open>line.split()\<close> and runs on
  each word the four passes VCV, VCCV, VCCC, VGV in this order, each pass on the word the
  pass before returned: each pass scans from left to right and inserts the marker
  \<^verbatim>\<open>@ @\<close> at every match. One word is printed per input word, and no printed word
  holds a line break, so the output has exactly one line per input word.
\<close>

theorem kaz_syllable_split_passes:
  "split_word word =
     insert_marks vgv (insert_marks vccc (insert_marks vccv (insert_marks vcv word)))
   \<and> kaz_syllable_split f = concat (map (\<lambda>line. map split_word (py_split line)) f)
   \<and> length (kaz_syllable_split f) = sum_list (map (\<lambda>line. length (py_split line)) f)
   \<and> (\<forall>w \<in> set (kaz_syllable_split f). NEWLINE \<notin> set w)"
proof -
  have a: "length (kaz_syllable_split f) = sum_list (map (\<lambda>line. length (py_split line)) f)"
    by (simp add: kaz_syllable_split_def length_concat comp_def)
  have b: "\<forall>w \<in> set (kaz_syllable_split f). NEWLINE \<notin> set w"
  proof
    fix w assume "w \<in> set (kaz_syllable_split f)"
    then obtain line v where v: "v \<in> set (py_split line)" "w = split_word v"
      by (auto simp: kaz_syllable_split_def)
    from v(1) have "NEWLINE \<notin> set v"
      using py_split_no_space newline_isspace by blast
    with v(2) show "NEWLINE \<notin> set w"
      by (simp add: split_word_no_newline)
  qed
  from a b show ?thesis
    by (simp add: split_word_passes kaz_syllable_split_def)
qed

lemma insert_marks_identity:
  "\<forall>c \<in> set s. \<not> vowel_or_glide c \<Longrightarrow> insert_marks r s = s"
  using insert_marks_skip[of s r "[]"] by simp

text \<open>
  Claim C10. On a word without any vowel or glide character all four passes leave the word
  as it is: the printed word is the input word.
\<close>

theorem split_word_identity:
  assumes "set word \<inter> (set vowel \<union> set glide) = {}"
  shows "split_word word = word"
proof -
  from assms have "\<forall>c \<in> set word. \<not> vowel_or_glide c"
    by (auto simp: vowel_or_glide_def)
  then show ?thesis
    by (simp add: split_word_passes insert_marks_identity)
qed

theorem split_word_identity_witness:
  "set [1073, 1088, 1088, 64] \<inter> (set vowel \<union> set glide) = {} \<and>
   split_word [1073, 1088, 1088, 64] = [1073, 1088, 1088, 64]"
proof -
  have h: "set [1073, 1088, 1088, 64] \<inter> (set vowel \<union> set glide) = {}"
    by (simp add: vowel_def glide_def)
  from split_word_identity[OF h] h show ?thesis
    by simp
qed

theorem kaz_syllable_split_passes_witness:
  "split_word [1072, 1083, 1084, 1072] = [1072, 1083, 64, 32, 64, 1084, 1072] \<and>
   kaz_syllable_split
     [[1072, 1083, 1084, 1072, 32, 1073, 1072, 1083, 1072, 10], [1072, 1103, 10]] =
     [[1072, 1083, 64, 32, 64, 1084, 1072], [1073, 1072, 64, 32, 64, 1083, 1072],
      [1072, 64, 32, 64, 1103]] \<and>
   length (kaz_syllable_split
     [[1072, 1083, 1084, 1072, 32, 1073, 1072, 1083, 1072, 10], [1072, 1103, 10]]) = 3 \<and>
   list_all (\<lambda>w. NEWLINE \<notin> set w) (kaz_syllable_split
     [[1072, 1083, 1084, 1072, 32, 1073, 1072, 1083, 1072, 10], [1072, 1103, 10]])"
proof -
  have p1: "py_split [1072, 1083, 1084, 1072, 32, 1073, 1072, 1083, 1072, 10] =
              [[1072, 1083, 1084, 1072], [1073, 1072, 1083, 1072]]"
    by (simp add: py_split_def py_isspace_def)
  have p2: "py_split [1072, 1103, 10] = [[1072, 1103]]"
    by (simp add: py_split_def py_isspace_def)
  have w1: "insert_marks vgv (insert_marks vccc (insert_marks vccv
              (insert_marks vcv [1072, 1083, 1084, 1072]))) =
            [1072, 1083, 64, 32, 64, 1084, 1072]"
    by (simp add: vowel_or_glide_def vowel_def glide_def consonant_def marker_def ustr_def)
  have w2: "split_word [1073, 1072, 1083, 1072] = [1073, 1072, 64, 32, 64, 1083, 1072]"
    by (simp add: split_word_passes vowel_or_glide_def vowel_def glide_def consonant_def
        marker_def ustr_def)
  have w3: "split_word [1072, 1103] = [1072, 64, 32, 64, 1103]"
    by (simp add: split_word_passes vowel_or_glide_def vowel_def glide_def consonant_def
        marker_def ustr_def)
  note t = kaz_syllable_split_passes[of "[1072, 1083, 1084, 1072]"
        "[[1072, 1083, 1084, 1072, 32, 1073, 1072, 1083, 1072, 10], [1072, 1103, 10]]"]
  from t have "split_word [1072, 1083, 1084, 1072] =
      insert_marks vgv (insert_marks vccc (insert_marks vccv
              (insert_marks vcv [1072, 1083, 1084, 1072])))"
    by (rule conjunct1)
  then have a: "split_word [1072, 1083, 1084, 1072] = [1072, 1083, 64, 32, 64, 1084, 1072]"
    by (simp only: w1)
  from t have "kaz_syllable_split
       [[1072, 1083, 1084, 1072, 32, 1073, 1072, 1083, 1072, 10], [1072, 1103, 10]] =
     concat (map (\<lambda>line. map split_word (py_split line))
       [[1072, 1083, 1084, 1072, 32, 1073, 1072, 1083, 1072, 10], [1072, 1103, 10]])"
    by (rule conjunct1[OF conjunct2])
  then have b: "kaz_syllable_split
       [[1072, 1083, 1084, 1072, 32, 1073, 1072, 1083, 1072, 10], [1072, 1103, 10]] =
     [[1072, 1083, 64, 32, 64, 1084, 1072], [1073, 1072, 64, 32, 64, 1083, 1072],
      [1072, 64, 32, 64, 1103]]"
    by (simp add: p1 p2 a w2 w3)
  have c: "length (kaz_syllable_split
     [[1072, 1083, 1084, 1072, 32, 1073, 1072, 1083, 1072, 10], [1072, 1103, 10]]) = 3"
    by (simp add: b)
  have d: "list_all (\<lambda>w. NEWLINE \<notin> set w) (kaz_syllable_split
     [[1072, 1083, 1084, 1072, 32, 1073, 1072, 1083, 1072, 10], [1072, 1103, 10]])"
    by (simp add: b NEWLINE_def)
  show ?thesis
    by (intro conjI) (rule a, rule b, rule c, rule d)
qed

end
